theory Spec2Isabelle
  imports Complex_Main "HOL-Library.Sublist"
begin

section \<open>Characters and strings of the host language\<close>

text \<open>
  A JavaScript string is modelled as a \<^typ>\<open>string\<close>; every \<^typ>\<open>char\<close> stands for
  one code unit below 256.  The white space class of the regular expression \<open>\s\<close> and of
  \<open>String.prototype.trim\<close> is, on these code units: tab, line feed, vertical tab, form
  feed, carriage return, space and the no-break space.
\<close>

abbreviation NL :: char where "NL \<equiv> CHR 0x0A"
abbreviation TAB :: char where "TAB \<equiv> CHR 0x09"
abbreviation CR :: char where "CR \<equiv> CHR 0x0D"
abbreviation BSL :: char where "BSL \<equiv> CHR 0x5C"
abbreviation DQ :: char where "DQ \<equiv> CHR 0x22"
abbreviation SQ :: char where "SQ \<equiv> CHR 0x27"

definition is_ws :: "char \<Rightarrow> bool" where
  "is_ws c = (c = TAB \<or> c = NL \<or> c = CHR 0x0B \<or> c = CHR 0x0C \<or> c = CR
              \<or> c = CHR '' '' \<or> c = CHR 0xA0)"

definition is_digit :: "char \<Rightarrow> bool" where
  "is_digit c = (c = CHR ''0'' \<or> c = CHR ''1'' \<or> c = CHR ''2'' \<or> c = CHR ''3''
              \<or> c = CHR ''4'' \<or> c = CHR ''5'' \<or> c = CHR ''6'' \<or> c = CHR ''7''
              \<or> c = CHR ''8'' \<or> c = CHR ''9'')"

definition trim :: "string \<Rightarrow> string" where
  "trim s = rev (dropWhile is_ws (rev (dropWhile is_ws s)))"

text \<open>\<open>s.startsWith(p)\<close> and \<open>s.endsWith(p)\<close>.\<close>

definition startsWith :: "string \<Rightarrow> string \<Rightarrow> bool" where
  "startsWith s p = (take (length p) s = p)"

definition endsWith :: "string \<Rightarrow> string \<Rightarrow> bool" where
  "endsWith s p = (length p \<le> length s \<and> drop (length s - length p) s = p)"

text \<open>
  \<open>s.substring(a, b)\<close>: both bounds are clamped to the length and swapped when the first
  is the larger one.
\<close>

definition substring :: "string \<Rightarrow> nat \<Rightarrow> nat \<Rightarrow> string" where
  "substring s a b =
     (let a' = min a (length s); b' = min b (length s);
          lo = min a' b'; hi = max a' b'
      in take (hi - lo) (drop lo s))"

text \<open>\<open>s.indexOf(c)\<close> for a single character, \<open>None\<close> for \<open>-1\<close>.\<close>

fun indexOf :: "string \<Rightarrow> char \<Rightarrow> nat option" where
  "indexOf [] c = None"
| "indexOf (x # xs) c = (if x = c then Some 0 else map_option Suc (indexOf xs c))"

text \<open>\<open>parts.join(sep)\<close>.\<close>

fun join :: "string \<Rightarrow> string list \<Rightarrow> string" where
  "join sep [] = []"
| "join sep [x] = x"
| "join sep (x # y # ys) = x @ sep @ join sep (y # ys)"

section \<open>Escape encoding and decoding\<close>

text \<open>
  \<open>_escapeString\<close>: \<open>str.replace(/[\n\t\\"]/g, ...)\<close> replaces every line feed, tab,
  backslash and double quote by its two-character escape.
\<close>

definition escapeChar :: "char \<Rightarrow> string" where
  "escapeChar c =
     (if c = NL then [BSL, CHR ''n'']
      else if c = TAB then [BSL, CHR ''t'']
      else if c = BSL then [BSL, BSL]
      else if c = DQ then [BSL, DQ]
      else [c])"

definition escapeString :: "string \<Rightarrow> string" where
  "escapeString s = concat (map escapeChar s)"

text \<open>
  \<open>_parseString\<close>: \<open>str.replace(/\\([nrt\\"])/g, ...)\<close> scans from the left; a backslash
  followed by one of \<open>n r t \ "\<close> is replaced together with that character, every other
  character (a backslash before anything else included) is kept.
\<close>

definition unescapeChar :: "char \<Rightarrow> char" where
  "unescapeChar c =
     (if c = CHR ''n'' then NL
      else if c = CHR ''r'' then CR
      else if c = CHR ''t'' then TAB
      else c)"

fun parseString :: "string \<Rightarrow> string" where
  "parseString [] = []"
| "parseString [c] = [c]"
| "parseString (c # d # cs) =
     (if c = BSL \<and> (d = CHR ''n'' \<or> d = CHR ''r'' \<or> d = CHR ''t'' \<or> d = BSL \<or> d = DQ)
      then unescapeChar d # parseString cs
      else c # parseString (d # cs))"

section \<open>Values\<close>

text \<open>
  A number is held as a canonical decimal fraction: \<open>Decimal m k\<close> is \<open>m / 10 ^ k\<close> with
  \<open>k = 0\<close> or a last digit of \<open>m\<close> other than zero, so that equal numbers are equal
  terms and \<open>===\<close> on numbers is equality.  The tokens the parser accepts as numbers are
  decimal fractions; the model keeps them exactly, where the host rounds to the nearest
  double (the two agree up to fifteen significant digits).
\<close>

datatype decimal = Decimal int nat

text \<open>
  The values of the host language the converter handles.  \<open>Undefined\<close> is the value of a
  missing field, property or array slot.  An object is a plain object, one whose
  prototype is \<open>Object.prototype\<close>: the list of its own properties in the order
  \<open>Object.entries\<close> enumerates them, with unique keys.
\<close>

datatype "value" =
    Undefined
  | Null
  | Bool bool
  | Num decimal
  | Str string
  | Arr "value list"
  | Obj "(string \<times> value) list"

subsection \<open>Number tokens\<close>

text \<open>\<open>_isNumber\<close>: the whole token matches \<open>/^-?\d+(\.\d+)?$/\<close>.\<close>

definition isNumber :: "string \<Rightarrow> bool" where
  "isNumber s =
     (let body = (if startsWith s ''-'' then tl s else s);
          ip = takeWhile is_digit body;
          rest = dropWhile is_digit body
      in ip \<noteq> [] \<and>
         (rest = [] \<or> (hd rest = CHR ''.'' \<and> tl rest \<noteq> [] \<and> list_all is_digit (tl rest))))"

text \<open>
  Numbers that can be large (digit strings, array indices, the limit \<open>2^32 - 1\<close>) are
  integers of type \<^typ>\<open>int\<close>; positions in a list are of type \<^typ>\<open>nat\<close>.
\<close>

definition digit_val :: "char \<Rightarrow> int" where
  "digit_val c = of_char c - 48"

definition int_of_digits :: "string \<Rightarrow> int" where
  "int_of_digits ds = foldl (\<lambda>a c. 10 * a + digit_val c) 0 ds"

text \<open>
  \<open>_parseNumber\<close>: \<open>parseFloat\<close> on a token that \<open>_isNumber\<close> accepted (its only
  caller checks that first, so the result is never \<open>NaN\<close>).  Trailing zeros of the
  fraction are dropped to reach the canonical form; \<open>-0\<close> is \<open>0\<close>.
\<close>

definition parseNumber :: "string \<Rightarrow> decimal" where
  "parseNumber s =
     (let neg = startsWith s ''-'';
          body = (if neg then tl s else s);
          ip = takeWhile is_digit body;
          rest = dropWhile is_digit body;
          fp = rev (dropWhile (\<lambda>c. c = CHR ''0'') (rev (takeWhile is_digit (tl rest))));
          m = int_of_digits (ip @ fp)
      in Decimal (if neg then - m else m) (length fp))"

text \<open>The decimal digits of a non-negative integer.\<close>

function show_digits :: "int \<Rightarrow> string" where
  "show_digits n =
     (if n < 10 then [char_of (48 + n)] else show_digits (n div 10) @ [char_of (48 + n mod 10)])"
  by pat_completeness auto
termination
  by (relation "measure nat") auto

declare show_digits.simps [simp del]

text \<open>
  \<open>Number.prototype.toString\<close> on a canonical decimal: with \<open>k\<close> significant digits
  and the decimal point after the \<open>n\<close>-th of them, plain digits for \<open>k \<le> n \<le> 21\<close>, a
  decimal point inside for \<open>0 < n \<le> 21\<close>, a leading \<open>0.\<close> for \<open>-6 < n \<le> 0\<close>, and
  exponent notation otherwise.
\<close>

definition num_toString :: "decimal \<Rightarrow> string" where
  "num_toString d =
     (case d of Decimal m sc \<Rightarrow>
        if m = 0 then ''0''
        else
          let all_digits = show_digits \<bar>m\<bar>;
              ds = rev (dropWhile (\<lambda>c. c = CHR ''0'') (rev all_digits));
              k = int (length ds);
              n = int (length all_digits) - int sc;
              sgn = (if m < 0 then ''-'' else [])
          in sgn @
             (if k \<le> n \<and> n \<le> 21 then ds @ replicate (nat (n - k)) (CHR ''0'')
              else if 0 < n \<and> n \<le> 21 then take (nat n) ds @ ''.'' @ drop (nat n) ds
              else if - 6 < n \<and> n \<le> 0 then ''0.'' @ replicate (nat (- n)) (CHR ''0'') @ ds
              else
                let e = n - 1;
                    es = (if e < 0 then ''-'' else ''+'') @ show_digits \<bar>e\<bar>
                in if k = 1 then ds @ ''e'' @ es
                   else take 1 ds @ ''.'' @ drop 1 ds @ ''e'' @ es))"

subsection \<open>Own properties of an object\<close>

text \<open>
  A key is an array index when it is the canonical decimal form of a number below
  \<open>2^32 - 1\<close>.  \<open>Object.entries\<close> lists array-index keys first, in ascending numeric
  order, then all other keys in insertion order.
\<close>

definition is_array_index :: "string \<Rightarrow> bool" where
  "is_array_index k =
     (k \<noteq> [] \<and> list_all is_digit k \<and> (k = ''0'' \<or> hd k \<noteq> CHR ''0'')
      \<and> int_of_digits k < 4294967295)"

fun insert_index :: "(string \<times> value) list \<Rightarrow> string \<Rightarrow> value \<Rightarrow> (string \<times> value) list" where
  "insert_index [] k v = [(k, v)]"
| "insert_index ((k', v') # r) k v =
     (if is_array_index k' \<and> int_of_digits k' < int_of_digits k
      then (k', v') # insert_index r k v
      else (k, v) # (k', v') # r)"

text \<open>
  \<open>obj[key] = v\<close> on a plain object.  An existing own property keeps its place; a new
  one is placed by the order above.  Assigning to \<open>__proto__\<close> calls the inherited
  setter and creates no own property.  The setter ignores a number or a string; given
  an object, an array or \<open>null\<close> it replaces the prototype, and the object is then no
  longer a plain one: the value here keeps its own properties and no more, so it stands
  for the result only up to the prototype.
\<close>

definition obj_set :: "(string \<times> value) list \<Rightarrow> string \<Rightarrow> value \<Rightarrow> (string \<times> value) list" where
  "obj_set obj k v =
     (if k = ''__proto__'' then obj
      else if k \<in> set (map fst obj)
      then map (\<lambda>(k', v'). if k' = k then (k', v) else (k', v')) obj
      else if is_array_index k then insert_index obj k v
      else obj @ [(k, v)])"

text \<open>
  \<open>obj[key]\<close> read on a plain object.  An own property gives its value.  A key that is
  not an own property is looked up in \<open>Object.prototype\<close>: there \<open>__proto__\<close> is an
  accessor that gives the prototype of the object, which is \<open>Object.prototype\<close> itself;
  eleven more keys name built-in functions; any other key gives \<open>undefined\<close>.
\<close>

datatype property = Data "value" | ObjectPrototype | BuiltinFunction

definition objectPrototypeFunctions :: "string list" where
  "objectPrototypeFunctions =
     [''constructor'', ''hasOwnProperty'', ''isPrototypeOf'', ''propertyIsEnumerable'',
      ''toLocaleString'', ''toString'', ''valueOf'', ''__defineGetter__'',
      ''__defineSetter__'', ''__lookupGetter__'', ''__lookupSetter__'']"

definition obj_get :: "(string \<times> value) list \<Rightarrow> string \<Rightarrow> property" where
  "obj_get obj k =
     (case map_of obj k of
        Some v \<Rightarrow> Data v
      | None \<Rightarrow>
          if k = ''__proto__'' then ObjectPrototype
          else if k \<in> set objectPrototypeFunctions then BuiltinFunction
          else Data Undefined)"

section \<open>Inline literals\<close>

text \<open>
  \<open>_splitByComma\<close>.  The loop state: the previous character of the input (\<open>None\<close> at
  index 0), the segment collected so far, the bracket depth, whether the scan is inside a
  quoted string and the quote that opened it, and the segments pushed so far.
\<close>

record split_state =
  sp_prev :: "char option"
  sp_current :: string
  sp_depth :: int
  sp_inString :: bool
  sp_stringChar :: "char option"
  sp_result :: "string list"

text \<open>One round of the loop body, at character \<open>c\<close>.\<close>

definition splitStep :: "char \<Rightarrow> split_state \<Rightarrow> split_state" where
  "splitStep c st =
     (let quote = ((c = DQ \<or> c = SQ) \<and> sp_prev st \<noteq> Some BSL);
          st1 = (if quote
                 then (if \<not> sp_inString st
                       then st\<lparr>sp_inString := True, sp_stringChar := Some c\<rparr>
                       else if sp_stringChar st = Some c
                       then st\<lparr>sp_inString := False, sp_stringChar := None\<rparr>
                       else st)
                 else st);
          st2 = (if \<not> sp_inString st1
                 then st1\<lparr>sp_depth := sp_depth st1
                        + (if c = CHR ''['' \<or> c = CHR ''{'' then 1 else 0)
                        - (if c = CHR '']'' \<or> c = CHR ''}'' then 1 else 0)\<rparr>
                 else st1)
      in if \<not> sp_inString st2 \<and> c = CHR '','' \<and> sp_depth st2 = 0
         then st2\<lparr>sp_prev := Some c, sp_result := sp_result st2 @ [trim (sp_current st2)],
                  sp_current := []\<rparr>
         else st2\<lparr>sp_prev := Some c, sp_current := sp_current st2 @ [c]\<rparr>)"

definition splitByComma :: "string \<Rightarrow> string list" where
  "splitByComma str =
     (let st = fold splitStep str
                 \<lparr>sp_prev = None, sp_current = [], sp_depth = 0, sp_inString = False,
                  sp_stringChar = None, sp_result = []\<rparr>
      in if trim (sp_current st) \<noteq> [] then sp_result st @ [trim (sp_current st)]
         else sp_result st)"

lemma length_trim_le: "length (trim s) \<le> length s"
proof -
  have "length (trim s) = length (dropWhile is_ws (rev (dropWhile is_ws s)))"
    by (simp add: trim_def)
  also have "\<dots> \<le> length (rev (dropWhile is_ws s))"
    by (rule length_dropWhile_le)
  also have "\<dots> \<le> length s"
    by (simp add: length_dropWhile_le)
  finally show ?thesis .
qed

definition split_bound :: "nat \<Rightarrow> split_state \<Rightarrow> bool" where
  "split_bound n st =
     (length (sp_current st) \<le> n \<and> list_all (\<lambda>x. length x \<le> n) (sp_result st))"

lemma split_bound_step: "split_bound n st \<Longrightarrow> split_bound (Suc n) (splitStep c st)"
proof -
  assume a: "split_bound n st"
  have mono: "list_all (\<lambda>x. length x \<le> Suc n) (sp_result st)"
    using a by (auto simp: split_bound_def list_all_iff)
  have tr: "length (trim (sp_current st)) \<le> Suc n"
    using a length_trim_le [of "sp_current st"] by (simp add: split_bound_def)
  have cu: "length (sp_current st) \<le> n" using a by (simp add: split_bound_def)
  show ?thesis
    unfolding split_bound_def splitStep_def Let_def
    using mono tr cu by (simp split: if_splits)
qed

lemma split_bound_fold: "split_bound n st \<Longrightarrow> split_bound (n + length s) (fold splitStep s st)"
proof (induction s arbitrary: n st)
  case Nil
  then show ?case by simp
next
  case (Cons c cs)
  from Cons.IH [OF split_bound_step [OF Cons.prems, of c]] show ?case by simp
qed

lemma splitByComma_length: "x \<in> set (splitByComma s) \<Longrightarrow> length x \<le> length s"
proof -
  assume x: "x \<in> set (splitByComma s)"
  define st where "st = fold splitStep s
                 \<lparr>sp_prev = None, sp_current = [], sp_depth = 0, sp_inString = False,
                  sp_stringChar = None, sp_result = []\<rparr>"
  have "split_bound (0 + length s) st"
    unfolding st_def by (rule split_bound_fold) (simp add: split_bound_def)
  then have b: "length (sp_current st) \<le> length s"
    and r: "\<forall>y\<in>set (sp_result st). length y \<le> length s"
    by (simp_all add: split_bound_def list_all_iff)
  from x have "x \<in> set (sp_result st) \<or> x = trim (sp_current st)"
    by (auto simp: splitByComma_def Let_def st_def [symmetric] split: if_splits)
  then show ?thesis
    using r b length_trim_le [of "sp_current st"] by auto
qed

lemma length_substring_inner:
  "2 \<le> length s \<Longrightarrow> length (substring s 1 (length s - 1)) = length s - 2"
  unfolding substring_def Let_def by (simp add: min_def max_def) arith

text \<open>
  \<open>_parseValue\<close>, with the bodies of \<open>_parseInlineArray\<close> and \<open>_parseInlineObject\<close>
  written in place at their call sites (the three are mutually recursive in the source;
  \<open>parseInlineArray\<close> and \<open>parseInlineObject\<close> below are the two bodies on their own).
\<close>

function parseValue :: "string \<Rightarrow> value" where
  "parseValue valueStr =
     (if valueStr = ''None'' then Null
      else if valueStr = ''{}'' then Obj []
      else if valueStr = ''[]'' then Arr []
      else if isNumber valueStr then Num (parseNumber valueStr)
      else if (startsWith valueStr [DQ] \<and> endsWith valueStr [DQ])
            \<or> (startsWith valueStr [SQ] \<and> endsWith valueStr [SQ])
      then Str (parseString (substring valueStr 1 (length valueStr - 1)))
      else if startsWith valueStr ''['' \<and> endsWith valueStr '']''
      then (let content = trim (substring valueStr 1 (length valueStr - 1))
            in if content = [] then Arr []
               else Arr (map (\<lambda>item. parseValue (trim item)) (splitByComma content)))
      else if startsWith valueStr ''{'' \<and> endsWith valueStr ''}''
      then (let content = trim (substring valueStr 1 (length valueStr - 1))
            in if content = [] then Obj []
               else Obj (fold (\<lambda>pair obj.
                           case indexOf pair (CHR '':'') of
                             None \<Rightarrow> obj
                           | Some colonIndex \<Rightarrow>
                               obj_set obj (trim (substring pair 0 colonIndex))
                                 (parseValue (trim (substring pair (colonIndex + 1) (length pair)))))
                         (splitByComma content) []))
      else Str (parseString valueStr))"
  by pat_completeness auto
termination
proof (relation "measure length")
  show "wf (measure length)" by simp
next
  fix valueStr :: string and content item
  assume b: "startsWith valueStr ''['' \<and> endsWith valueStr '']''"
    and c: "content = trim (substring valueStr 1 (length valueStr - 1))"
    and i: "item \<in> set (splitByComma content)"
  from b have len: "2 \<le> length valueStr"
    by (cases valueStr; cases "tl valueStr") (auto simp: startsWith_def endsWith_def)
  have "length (trim item) \<le> length item" by (rule length_trim_le)
  also have "\<dots> \<le> length content" using i by (rule splitByComma_length)
  also have "\<dots> \<le> length valueStr - 2"
    using length_trim_le [of "substring valueStr 1 (length valueStr - 1)"]
      length_substring_inner [OF len] c by simp
  finally show "(trim item, valueStr) \<in> measure length" using len by simp
next
  fix valueStr :: string and content pair colonIndex
  assume b: "startsWith valueStr ''{'' \<and> endsWith valueStr ''}''"
    and c: "content = trim (substring valueStr 1 (length valueStr - 1))"
    and i: "pair \<in> set (splitByComma content)"
  from b have len: "2 \<le> length valueStr"
    by (cases valueStr; cases "tl valueStr") (auto simp: startsWith_def endsWith_def)
  have "length (trim (substring pair (colonIndex + 1) (length pair)))
          \<le> length (substring pair (colonIndex + 1) (length pair))" by (rule length_trim_le)
  also have "\<dots> \<le> length pair" by (simp add: substring_def Let_def min_def max_def)
  also have "\<dots> \<le> length content" using i by (rule splitByComma_length)
  also have "\<dots> \<le> length valueStr - 2"
    using length_trim_le [of "substring valueStr 1 (length valueStr - 1)"]
      length_substring_inner [OF len] c by simp
  finally show "(trim (substring pair (colonIndex + 1) (length pair)), valueStr) \<in> measure length"
    using len by simp
qed

declare parseValue.simps [simp del]

definition parseInlineArray :: "string \<Rightarrow> value list" where
  "parseInlineArray str =
     (let content = trim (substring str 1 (length str - 1))
      in if content = [] then []
         else map (\<lambda>item. parseValue (trim item)) (splitByComma content))"

definition parseInlineObject :: "string \<Rightarrow> (string \<times> value) list" where
  "parseInlineObject str =
     (let content = trim (substring str 1 (length str - 1))
      in if content = [] then []
         else fold (\<lambda>pair obj.
                 case indexOf pair (CHR '':'') of
                   None \<Rightarrow> obj
                 | Some colonIndex \<Rightarrow>
                     obj_set obj (trim (substring pair 0 colonIndex))
                       (parseValue (trim (substring pair (colonIndex + 1) (length pair)))))
               (splitByComma content) [])"

section \<open>Preprocessing\<close>

text \<open>
  \<open>_removeComments\<close>.  The loop runs over the remaining input; \<open>prev\<close> is the character
  before the current one (\<open>str[i - 1]\<close>, \<open>None\<close> at index 0).  The branches are those of
  the loop body, in its order.  At a backslash that ends the input inside a string,
  \<open>char + nextChar\<close> appends the text \<open>undefined\<close>.  A line comment is skipped up to
  the next line feed, which stays.
\<close>

function removeLoop :: "string \<Rightarrow> char option \<Rightarrow> bool \<Rightarrow> bool \<Rightarrow> char option \<Rightarrow> string" where
  "removeLoop [] prev inMultiLineComment inString stringChar = []"
| "removeLoop (c # cs) prev inMultiLineComment inString stringChar =
     (if \<not> inMultiLineComment \<and> (c = DQ \<or> c = SQ) then
        (if \<not> inString then c # removeLoop cs (Some c) inMultiLineComment True (Some c)
         else if stringChar = Some c \<and> prev \<noteq> Some BSL
         then c # removeLoop cs (Some c) inMultiLineComment False None
         else c # removeLoop cs (Some c) inMultiLineComment inString stringChar)
      else if inString \<and> c = BSL then
        (case cs of
           [] \<Rightarrow> BSL # ''undefined''
         | d # ds \<Rightarrow> BSL # d # removeLoop ds (Some d) inMultiLineComment inString stringChar)
      else if \<not> inString \<and> c = CHR ''/'' \<and> take 1 cs = ''*''
      then removeLoop (drop 1 cs) (Some (CHR ''*'')) True inString stringChar
      else if inMultiLineComment \<and> c = CHR ''*'' \<and> take 1 cs = ''/''
      then removeLoop (drop 1 cs) (Some (CHR ''/'')) False inString stringChar
      else if inMultiLineComment
      then removeLoop cs (Some c) inMultiLineComment inString stringChar
      else if \<not> inString \<and> ((c = CHR ''/'' \<and> take 1 cs = ''/'') \<or> c = CHR ''#'')
      then removeLoop (dropWhile (\<lambda>x. x \<noteq> NL) cs)
             (Some (last (c # takeWhile (\<lambda>x. x \<noteq> NL) cs)))
             inMultiLineComment inString stringChar
      else c # removeLoop cs (Some c) inMultiLineComment inString stringChar)"
  by pat_completeness auto
termination
  by (relation "measure (\<lambda>(s, _). length s)")
     (auto simp: length_dropWhile_le le_imp_less_Suc)

declare removeLoop.simps [simp del]

definition removeComments :: "string \<Rightarrow> string" where
  "removeComments str = removeLoop str None False False None"

text \<open>
  \<open>_processMultilineStrings\<close>.  Inside a string the escapes \<open>\n\<close> and \<open>\t\<close> are
  decoded into the current line; a line feed of the input ends the current line whether
  or not the scan is inside a string.  \<open>splitLines\<close> returns the lines pushed, before the
  final filter.
\<close>

fun splitLines :: "string \<Rightarrow> char option \<Rightarrow> string \<Rightarrow> bool \<Rightarrow> char option \<Rightarrow> string list" where
  "splitLines [] prev currentLine inString stringChar =
     (if currentLine \<noteq> [] then [currentLine] else [])"
| "splitLines (c # cs) prev currentLine inString stringChar =
     (let quote = (c = DQ \<or> c = SQ);
          inString' = (if quote then (if \<not> inString then True
                                      else if stringChar = Some c \<and> prev \<noteq> Some BSL then False
                                      else inString)
                       else inString);
          stringChar' = (if quote then (if \<not> inString then Some c
                                        else if stringChar = Some c \<and> prev \<noteq> Some BSL then None
                                        else stringChar)
                         else stringChar)
      in case cs of
           d # ds \<Rightarrow>
             if c = BSL \<and> inString' \<and> d = CHR ''n''
             then splitLines ds (Some d) (currentLine @ [NL]) inString' stringChar'
             else if c = BSL \<and> inString' \<and> d = CHR ''t''
             then splitLines ds (Some d) (currentLine @ [TAB]) inString' stringChar'
             else if c = NL then currentLine # splitLines cs (Some c) [] inString' stringChar'
             else splitLines cs (Some c) (currentLine @ [c]) inString' stringChar'
         | [] \<Rightarrow>
             if c = NL then currentLine # splitLines cs (Some c) [] inString' stringChar'
             else splitLines cs (Some c) (currentLine @ [c]) inString' stringChar')"

definition processMultilineStrings :: "string \<Rightarrow> string list" where
  "processMultilineStrings str =
     filter (\<lambda>line. trim line \<noteq> []) (splitLines str None [] False None)"

section \<open>The converter's fields\<close>

text \<open>
  The instance fields.  \<open>indentType\<close> and \<open>indentSize\<close> start as \<open>null\<close> and are only
  ever assigned together, so they are one optional field here; \<open>outerParsed\<close> is the
  serializer's one-shot flag.
\<close>

datatype indent_kind = Space | Tab

record indent_style =
  indentType :: indent_kind
  indentSize :: nat

record converter =
  style :: "indent_style option"
  outerParsed :: bool

definition new_converter :: converter where
  "new_converter = \<lparr>style = None, outerParsed = False\<rparr>"

datatype array_format = Indexed | Values

text \<open>The lines both line loops skip: blank, or starting with \<open>//\<close> or \<open>#\<close>.\<close>

definition comment_line :: "string \<Rightarrow> bool" where
  "comment_line line =
     (let trimmed = trim line
      in trimmed = [] \<or> startsWith trimmed ''//'' \<or> startsWith trimmed ''#'')"

text \<open>
  \<open>_detectIndentType\<close>: the first line that is not skipped and has leading white space
  decides; when there is none, the fields keep their values unless \<open>indentType\<close> is
  still unset.
\<close>

definition detectIndentType :: "string list \<Rightarrow> converter \<Rightarrow> converter" where
  "detectIndentType lines conv =
     (case List.find (\<lambda>line. \<not> comment_line line \<and> takeWhile is_ws line \<noteq> []) lines of
        Some line \<Rightarrow>
          (let spaces = takeWhile is_ws line
           in if TAB \<in> set spaces
              then conv\<lparr>style := Some \<lparr>indentType = Tab, indentSize = 1\<rparr>\<rparr>
              else conv\<lparr>style := Some \<lparr>indentType = Space, indentSize = length spaces\<rparr>\<rparr>)
      | None \<Rightarrow>
          (case style conv of
             None \<Rightarrow> conv\<lparr>style := Some \<lparr>indentType = Space, indentSize = 2\<rparr>\<rparr>
           | Some s \<Rightarrow> conv))"

text \<open>\<open>_getIndentLevel\<close>, for the style the fields hold.\<close>

definition getIndentLevel :: "indent_style \<Rightarrow> string \<Rightarrow> int" where
  "getIndentLevel s line =
     (if indentType s = Tab then int (length (takeWhile (\<lambda>c. c = TAB) line))
      else int (length (takeWhile is_ws line) div indentSize s))"

section \<open>The block parser\<close>

datatype error = InvalidLine string | RangeError

datatype tp = TString | TNumber | TNull | TObject | TArray

text \<open>
  A node of the parse tree: key, value, type, indent and, for a node that was opened as a
  container, its children.  The root has neither key nor value nor indent; they are never
  read, and are the empty string, \<open>undefined\<close> and the root frame's \<open>-1\<close> here.
\<close>

datatype ast = Ast (a_key: string) (a_value: "value") (a_type: tp) (a_indent: int)
  (a_children: "ast list option")

text \<open>
  The classification chain shared by \<open>_parseKeyValue\<close>, \<open>_parseValue\<close> and
  \<open>_getValueType\<close>, as \<open>_parseKeyValue\<close> writes it: the type tag with the value.
\<close>

definition classify :: "string \<Rightarrow> tp \<times> value" where
  "classify valueStr =
     (if valueStr = ''None'' then (TNull, Null)
      else if valueStr = ''{}'' then (TObject, Obj [])
      else if valueStr = ''[]'' then (TArray, Arr [])
      else if isNumber valueStr then (TNumber, Num (parseNumber valueStr))
      else if (startsWith valueStr [DQ] \<and> endsWith valueStr [DQ])
            \<or> (startsWith valueStr [SQ] \<and> endsWith valueStr [SQ])
      then (TString, Str (parseString (substring valueStr 1 (length valueStr - 1))))
      else if startsWith valueStr ''['' \<and> endsWith valueStr '']''
      then (TArray, Arr (parseInlineArray valueStr))
      else if startsWith valueStr ''{'' \<and> endsWith valueStr ''}''
      then (TObject, Obj (parseInlineObject valueStr))
      else (TString, Str (parseString valueStr)))"

text \<open>\<open>_parseKeyValue\<close>: the key, and the type and value of what follows the first colon.\<close>

definition parseKeyValue :: "string \<Rightarrow> error + (string \<times> tp \<times> value)" where
  "parseKeyValue line =
     (case indexOf line (CHR '':'') of
        None \<Rightarrow> Inl (InvalidLine (''Invalid line: '' @ line))
      | Some colonIndex \<Rightarrow>
          (let key = trim (substring line 0 colonIndex);
               valueStr = trim (substring line (colonIndex + 1) (length line))
           in Inr (key, classify valueStr)))"

text \<open>\<open>_getValueType\<close>.\<close>

definition getValueType :: "string \<Rightarrow> tp" where
  "getValueType valueStr =
     (if valueStr = ''None'' then TNull
      else if valueStr = ''{}'' then TObject
      else if valueStr = ''[]'' then TArray
      else if isNumber valueStr then TNumber
      else if (startsWith valueStr [DQ] \<and> endsWith valueStr [DQ])
            \<or> (startsWith valueStr [SQ] \<and> endsWith valueStr [SQ])
      then TString
      else if startsWith valueStr ''['' \<and> endsWith valueStr '']'' then TArray
      else if startsWith valueStr ''{'' \<and> endsWith valueStr ''}'' then TObject
      else TString)"

text \<open>
  A frame of the stack: an open container node, whose children are still being
  collected, and the indent it was opened at.  The source pushes a new container into its
  parent's children at once and goes on filling it through the reference the stack
  holds; since children are only ever pushed into the top frame's node, a node is
  complete when its frame is popped, and the model pushes it into its parent then.
\<close>

record frame =
  f_key :: string
  f_value :: "value"
  f_type :: tp
  f_children :: "ast list"
  f_indent :: int

definition frame_node :: "frame \<Rightarrow> ast" where
  "frame_node f = Ast (f_key f) (f_value f) (f_type f) (f_indent f) (Some (f_children f))"

definition push_child :: "ast \<Rightarrow> frame \<Rightarrow> frame" where
  "push_child n f = f\<lparr>f_children := f_children f @ [n]\<rparr>"

definition root_frame :: frame where
  "root_frame = \<lparr>f_key = [], f_value = Undefined, f_type = TObject, f_children = [],
                 f_indent = - 1\<rparr>"

text \<open>
  The stack is its top frame and the frames below it, the root frame last.
  \<open>popFrames\<close> is the loop \<open>while (stack.length > 1 && top.indent >= indent) stack.pop()\<close>.
\<close>

fun popFrames :: "frame \<Rightarrow> frame list \<Rightarrow> int \<Rightarrow> frame \<times> frame list" where
  "popFrames fr [] indent = (fr, [])"
| "popFrames fr (g # below) indent =
     (if f_indent fr \<ge> indent then popFrames (push_child (frame_node fr) g) below indent
      else (fr, g # below))"

text \<open>One round of the line loop of \<open>_linesToAst\<close>.\<close>

definition lineStep ::
  "array_format \<Rightarrow> indent_style \<Rightarrow> string \<Rightarrow> frame \<times> frame list \<Rightarrow> error + (frame \<times> frame list)"
where
  "lineStep arrayFormat sty line stack =
     (let indent = getIndentLevel sty line;
          trimmed = trim line
      in if trimmed = [] then Inr stack
         else if startsWith trimmed ''//'' \<or> startsWith trimmed ''#'' then Inr stack
         else
           (case popFrames (fst stack) (snd stack) indent of (parent, below) \<Rightarrow>
              if arrayFormat = Values \<and> f_type parent = TArray \<and> CHR '':'' \<notin> set line
              then Inr (push_child
                          (Ast ''-'' (parseValue trimmed) (getValueType trimmed) indent None)
                          parent, below)
              else
                (case parseKeyValue trimmed of
                   Inl e \<Rightarrow> Inl e
                 | Inr (key, ty, v) \<Rightarrow>
                     if ty = TObject \<or> ty = TArray
                     then Inr (\<lparr>f_key = key, f_value = v, f_type = ty, f_children = [],
                                f_indent = indent\<rparr>, parent # below)
                     else Inr (push_child (Ast key v ty indent None) parent, below))))"

fun lineLoop ::
  "array_format \<Rightarrow> indent_style \<Rightarrow> string list \<Rightarrow> frame \<times> frame list \<Rightarrow> error + (frame \<times> frame list)"
where
  "lineLoop arrayFormat sty [] stack = Inr stack"
| "lineLoop arrayFormat sty (line # lines) stack =
     (case lineStep arrayFormat sty line stack of
        Inl e \<Rightarrow> Inl e
      | Inr stack' \<Rightarrow> lineLoop arrayFormat sty lines stack')"

text \<open>The tree the root reference holds at the end: every open frame closed.\<close>

fun closeFrames :: "frame \<Rightarrow> frame list \<Rightarrow> ast" where
  "closeFrames fr [] = frame_node fr"
| "closeFrames fr (g # below) = closeFrames (push_child (frame_node fr) g) below"

text \<open>
  \<open>_linesToAst\<close>: the fields after the detection, and the tree or the error.  The
  detection always leaves a style in the fields; the default of the \<open>case\<close> is never
  taken.
\<close>

definition linesToAst :: "string list \<Rightarrow> array_format \<Rightarrow> converter \<Rightarrow> (error + ast) \<times> converter" where
  "linesToAst lines arrayFormat conv =
     (let conv' = detectIndentType lines conv;
          sty = (case style conv' of Some s \<Rightarrow> s
                 | None \<Rightarrow> \<lparr>indentType = Space, indentSize = 2\<rparr>)
      in (case lineLoop arrayFormat sty lines (root_frame, []) of
            Inl e \<Rightarrow> Inl e
          | Inr (fr, below) \<Rightarrow> Inr (closeFrames fr below),
          conv'))"

section \<open>The materializer\<close>

subsection \<open>Numbers read from keys\<close>

text \<open>
  The result of \<open>Number(text)\<close> and \<open>parseInt(text, 10)\<close> on a piece of a key: not a
  number, a finite number or infinity.  The pieces come from splitting a key at its
  hyphens, so they carry no minus sign and the results are never negative.  Finite
  results are exact; a result of \<open>2^1024 - 2^970\<close> or more is infinity, as it is for a
  double.
\<close>

datatype jsnum = NaN | Fin decimal | PInf

fun normalize_dec :: "int \<Rightarrow> nat \<Rightarrow> decimal" where
  "normalize_dec m 0 = Decimal m 0"
| "normalize_dec m (Suc k) =
     (if m mod 10 = 0 then normalize_dec (m div 10) k else Decimal m (Suc k))"

definition to_jsnum :: "decimal \<Rightarrow> jsnum" where
  "to_jsnum d =
     (case d of Decimal m k \<Rightarrow>
        if k = 0 \<and> m \<ge> 2 ^ 1024 - 2 ^ 970 then PInf else Fin d)"

definition is_hex_digit :: "char \<Rightarrow> bool" where
  "is_hex_digit c =
     (is_digit c \<or> c \<in> set ''abcdefABCDEF'')"

definition hex_val :: "char \<Rightarrow> int" where
  "hex_val c =
     (if is_digit c then digit_val c
      else if c \<in> set ''abcdef'' then of_char c - 87
      else of_char c - 55)"

definition int_of_base :: "int \<Rightarrow> string \<Rightarrow> int" where
  "int_of_base b ds = foldl (\<lambda>a c. b * a + hex_val c) 0 ds"

text \<open>
  \<open>Number(text)\<close>: white space around the text is ignored; the empty text is \<open>0\<close>;
  then a hexadecimal, octal or binary integer literal, \<open>Infinity\<close>, or a decimal literal
  with optional fraction and exponent, each with an optional plus sign where the
  grammar allows one; anything else is not a number.
\<close>

definition js_Number :: "string \<Rightarrow> jsnum" where
  "js_Number s =
     (let t = trim s
      in if t = [] then Fin (Decimal 0 0)
         else if (startsWith t ''0x'' \<or> startsWith t ''0X'') \<and> drop 2 t \<noteq> []
                 \<and> list_all is_hex_digit (drop 2 t)
         then to_jsnum (Decimal (int_of_base 16 (drop 2 t)) 0)
         else if (startsWith t ''0o'' \<or> startsWith t ''0O'') \<and> drop 2 t \<noteq> []
                 \<and> list_all (\<lambda>c. c \<in> set ''01234567'') (drop 2 t)
         then to_jsnum (Decimal (int_of_base 8 (drop 2 t)) 0)
         else if (startsWith t ''0b'' \<or> startsWith t ''0B'') \<and> drop 2 t \<noteq> []
                 \<and> list_all (\<lambda>c. c \<in> set ''01'') (drop 2 t)
         then to_jsnum (Decimal (int_of_base 2 (drop 2 t)) 0)
         else
           (let u = (if startsWith t ''+'' then tl t else t)
            in if u = ''Infinity'' then PInf
               else
                 (let ip = takeWhile is_digit u;
                      r1 = dropWhile is_digit u;
                      has_dot = startsWith r1 ''.'';
                      fp = (if has_dot then takeWhile is_digit (tl r1) else []);
                      r2 = (if has_dot then dropWhile is_digit (tl r1) else r1);
                      has_exp = (startsWith r2 ''e'' \<or> startsWith r2 ''E'');
                      r3 = (if has_exp then tl r2 else r2);
                      ed = (if has_exp \<and> startsWith r3 ''+'' then tl r3 else r3)
                  in if (ip = [] \<and> fp = [])
                        \<or> (has_exp \<and> (ed = [] \<or> \<not> list_all is_digit ed))
                        \<or> (\<not> has_exp \<and> r2 \<noteq> [])
                     then NaN
                     else
                       (let m = int_of_digits (ip @ fp);
                            e = (if has_exp then int_of_digits ed else 0);
                            f = int (length fp)
                        in if m = 0 then Fin (Decimal 0 0)
                           else if e \<ge> f then to_jsnum (Decimal (m * 10 ^ nat (e - f)) 0)
                           else to_jsnum (normalize_dec m (nat (f - e)))))))"

text \<open>
  \<open>parseInt(text, 10)\<close>: leading white space and a plus sign are skipped, then the
  longest run of digits is read; with no digit the result is not a number.
\<close>

definition js_parseInt :: "string \<Rightarrow> jsnum" where
  "js_parseInt s =
     (let t = dropWhile is_ws s;
          u = (if startsWith t ''+'' then tl t else t);
          ds = takeWhile is_digit u
      in if ds = [] then NaN else to_jsnum (Decimal (int_of_digits ds) 0))"

text \<open>\<open>key.split('-')\<close>.\<close>

fun split_at :: "char \<Rightarrow> string \<Rightarrow> string \<Rightarrow> string list" where
  "split_at sep cur [] = [cur]"
| "split_at sep cur (c # cs) =
     (if c = sep then cur # split_at sep [] cs else split_at sep (cur @ [c]) cs)"

definition split_dash :: "string \<Rightarrow> string list" where
  "split_dash key = split_at (CHR ''-'') [] key"

definition dec_le :: "decimal \<Rightarrow> decimal \<Rightarrow> bool" where
  "dec_le a b = (case (a, b) of (Decimal m k, Decimal m' k') \<Rightarrow> m * 10 ^ k' \<le> m' * 10 ^ k)"

definition dec_plus :: "decimal \<Rightarrow> int \<Rightarrow> decimal" where
  "dec_plus a j = (case a of Decimal m k \<Rightarrow> Decimal (m + j * 10 ^ k) k)"

text \<open>How many numbers \<open>a, a + 1, a + 2, \<dots>\<close> are at most \<open>b\<close>, for \<open>a \<le> b\<close>.\<close>

definition dec_count :: "decimal \<Rightarrow> decimal \<Rightarrow> int" where
  "dec_count a b =
     (case (a, b) of (Decimal m k, Decimal m' k') \<Rightarrow>
        (m' * 10 ^ k - m * 10 ^ k') div 10 ^ (k + k') + 1)"

subsection \<open>The array under construction\<close>

text \<open>
  An array with holes is the list of its slots up to its length, a hole being
  \<open>Undefined\<close>.  \<open>array[i] = v\<close> writes a slot, growing the array, when \<open>i\<close> is an integer
  from \<open>0\<close> to \<open>2^32 - 2\<close>; for any other number it sets a property that is no element
  and leaves the slots alone.
\<close>

definition arr_set :: "value list \<Rightarrow> jsnum \<Rightarrow> value \<Rightarrow> value list" where
  "arr_set a i v =
     (case i of
        Fin (Decimal m k) \<Rightarrow>
          if k = 0 \<and> 0 \<le> m \<and> m < 4294967295
          then (if nat m < length a then a[nat m := v]
                else a @ replicate (nat m - length a) Undefined @ [v])
          else a
      | _ \<Rightarrow> a)"

record recon =
  r_array :: "value list"
  r_explicit :: "jsnum list"
  r_dash :: "value list"

text \<open>
  \<open>explicitIndices.push(i)\<close> raises a \<open>RangeError\<close> once the list holds \<open>2^32 - 1\<close>
  entries.  The loop \<open>for (i = start; i <= end; i++)\<close> writes and pushes once per round,
  so it raises when its rounds would take the list over that length, and whenever it
  would not end (an infinite \<open>end\<close>); otherwise it runs \<open>dec_count start end\<close> rounds.
  The counter is exact here; the host's counter is, below \<open>2^53\<close>.  The other lists of
  the converter are taken without a limit on their length: to reach it they need an
  input of more than \<open>2^32\<close> characters.
\<close>

definition rangeLoop :: "jsnum \<Rightarrow> jsnum \<Rightarrow> value \<Rightarrow> recon \<Rightarrow> error + recon" where
  "rangeLoop start end v st =
     (case (start, end) of
        (Fin a, Fin b) \<Rightarrow>
          if dec_le a b
          then (if int (length (r_explicit st)) + dec_count a b > 4294967295
                then Inl RangeError
                else Inr (fold (\<lambda>j st. st\<lparr>r_array := arr_set (r_array st) (Fin (dec_plus a (int j))) v,
                                           r_explicit := r_explicit st @ [Fin (dec_plus a (int j))]\<rparr>)
                            [0 ..< nat (dec_count a b)] st))
          else Inr st
      | (Fin a, PInf) \<Rightarrow> Inl RangeError
      | (PInf, PInf) \<Rightarrow> Inl RangeError
      | _ \<Rightarrow> Inr st)"

definition pushIndex :: "jsnum \<Rightarrow> value \<Rightarrow> recon \<Rightarrow> error + recon" where
  "pushIndex index v st =
     (if int (length (r_explicit st)) + 1 > 4294967295 then Inl RangeError
      else Inr (st\<lparr>r_array := arr_set (r_array st) index v,
                   r_explicit := r_explicit st @ [index]\<rparr>))"

text \<open>\<open>while (explicitIndices.includes(currentIndex)) currentIndex++\<close>.\<close>

definition claimed_from :: "jsnum list \<Rightarrow> int \<Rightarrow> int set" where
  "claimed_from ex cur = {n. cur \<le> n \<and> Fin (Decimal n 0) \<in> set ex}"

lemma finite_claimed_from: "finite (claimed_from ex cur)"
proof -
  have "claimed_from ex cur \<subseteq> (\<lambda>x. case x of Fin (Decimal n k) \<Rightarrow> n | _ \<Rightarrow> 0) ` set ex"
    by (force simp: claimed_from_def image_iff)
  then show ?thesis by (rule finite_subset) simp
qed

lemma claimed_from_Suc:
  "Fin (Decimal cur 0) \<in> set ex \<Longrightarrow> card (claimed_from ex (cur + 1)) < card (claimed_from ex cur)"
proof (rule psubset_card_mono [OF finite_claimed_from])
  assume "Fin (Decimal cur 0) \<in> set ex"
  then have "cur \<in> claimed_from ex cur" "cur \<notin> claimed_from ex (cur + 1)"
    by (simp_all add: claimed_from_def)
  moreover have "claimed_from ex (cur + 1) \<subseteq> claimed_from ex cur"
    by (auto simp: claimed_from_def)
  ultimately show "claimed_from ex (cur + 1) \<subset> claimed_from ex cur" by blast
qed

function skipClaimed :: "jsnum list \<Rightarrow> int \<Rightarrow> int" where
  "skipClaimed ex cur =
     (if Fin (Decimal cur 0) \<in> set ex then skipClaimed ex (cur + 1) else cur)"
  by pat_completeness auto
termination
  by (relation "measure (\<lambda>(ex, cur). card (claimed_from ex cur))")
     (simp_all add: claimed_from_Suc)

declare skipClaimed.simps [simp del]

text \<open>The loop over the collected placeholder values, with its cursor.\<close>

fun placeDashes :: "jsnum list \<Rightarrow> value list \<Rightarrow> int \<Rightarrow> value list \<Rightarrow> value list" where
  "placeDashes ex [] cur arr = arr"
| "placeDashes ex (d # ds) cur arr =
     (let cur' = skipClaimed ex cur
      in placeDashes ex ds (cur' + 1) (arr_set arr (Fin (Decimal cur' 0)) d))"

definition fillHoles :: "value list \<Rightarrow> value list" where
  "fillHoles arr = map (\<lambda>x. if x = Undefined then Num (Decimal 0 0) else x) arr"

definition truthy :: "value \<Rightarrow> bool" where
  "truthy v =
     (case v of
        Undefined \<Rightarrow> False
      | Null \<Rightarrow> False
      | Bool b \<Rightarrow> b
      | Num d \<Rightarrow> d \<noteq> Decimal 0 0
      | Str s \<Rightarrow> s \<noteq> []
      | Arr xs \<Rightarrow> True
      | Obj kvs \<Rightarrow> True)"

definition isArray :: "value \<Rightarrow> bool" where
  "isArray v = (case v of Arr xs \<Rightarrow> True | _ \<Rightarrow> False)"

subsection \<open>From the tree to the value\<close>

text \<open>A loop over a list that stops at the first error.\<close>

fun foldE :: "('a \<Rightarrow> 's \<Rightarrow> error + 's) \<Rightarrow> 'a list \<Rightarrow> 's \<Rightarrow> error + 's" where
  "foldE f [] s = Inr s"
| "foldE f (x # xs) s = (case f x s of Inl e \<Rightarrow> Inl e | Inr s' \<Rightarrow> foldE f xs s')"

lemma foldE_cong [fundef_cong]:
  "xs = ys \<Longrightarrow> s = t \<Longrightarrow> (\<And>x s. x \<in> set ys \<Longrightarrow> f x s = g x s) \<Longrightarrow> foldE f xs s = foldE g ys t"
proof -
  assume "xs = ys" "s = t" and fg: "\<And>x s. x \<in> set ys \<Longrightarrow> f x s = g x s"
  have "foldE f ys t = foldE g ys t" using fg
    by (induction ys arbitrary: t) (simp_all split: sum.splits)
  with \<open>xs = ys\<close> \<open>s = t\<close> show ?thesis by simp
qed

definition children_of :: "ast list option \<Rightarrow> ast list" where
  "children_of ch = (case ch of None \<Rightarrow> [] | Some cs \<Rightarrow> cs)"

lemma size_children_of: "child \<in> set (children_of ch) \<Longrightarrow> size child < Suc (size_option (size_list size) ch)"
  by (cases ch) (auto simp: children_of_def less_Suc_eq_le dest!: size_list_estimation' [where f = size and y = "size child", OF _ order_refl])

text \<open>
  \<open>_astToObject\<close>.  A scalar node returns its value.  An object node assigns each child
  under its key, in order.  An array node without children returns its inline value;
  otherwise the children are reconciled: a child keyed \<open>-\<close> is collected, a child whose
  key contains a hyphen is a range, any other child is placed at \<open>parseInt\<close> of its key
  (and passed over when that is not a number); then the collected values go to the
  lowest free indices, and the holes are filled with \<open>0\<close>.
\<close>

function astToObject :: "ast \<Rightarrow> error + value" where
  "astToObject (Ast key v ty ind ch) =
     (if ty = TString \<or> ty = TNumber \<or> ty = TNull then Inr v
      else if ty = TObject then
        (case foldE (\<lambda>child obj.
                 if a_type child = TObject \<or> a_type child = TArray
                 then (case astToObject child of
                         Inl e \<Rightarrow> Inl e
                       | Inr x \<Rightarrow> Inr (obj_set obj (a_key child) x))
                 else Inr (obj_set obj (a_key child) (a_value child)))
               (children_of ch) [] of
           Inl e \<Rightarrow> Inl e
         | Inr obj \<Rightarrow> Inr (Obj obj))
      else if truthy v \<and> ch = None then Inr v
      else
        (case foldE (\<lambda>child st.
                 if a_key child = ''-''
                 then (case astToObject child of
                         Inl e \<Rightarrow> Inl e
                       | Inr x \<Rightarrow> Inr (st\<lparr>r_dash := r_dash st @ [x]\<rparr>))
                 else if CHR ''-'' \<in> set (a_key child)
                 then (let parts = map js_Number (split_dash (a_key child));
                           start = (case parts of a # _ \<Rightarrow> a | _ \<Rightarrow> NaN);
                           end = (case parts of _ # b # _ \<Rightarrow> b | _ \<Rightarrow> NaN)
                       in case astToObject child of
                            Inl e \<Rightarrow> Inl e
                          | Inr x \<Rightarrow> rangeLoop start end x st)
                 else (let index = js_parseInt (a_key child)
                       in if index \<noteq> NaN
                          then (case astToObject child of
                                  Inl e \<Rightarrow> Inl e
                                | Inr x \<Rightarrow> pushIndex index x st)
                          else Inr st))
               (children_of ch) \<lparr>r_array = [], r_explicit = [], r_dash = []\<rparr> of
           Inl e \<Rightarrow> Inl e
         | Inr st \<Rightarrow>
             (let array = fillHoles (placeDashes (r_explicit st) (r_dash st) 0 (r_array st))
              in if array = [] \<and> truthy v \<and> isArray v then Inr v else Inr (Arr array))))"
  by pat_completeness auto
termination
  by (relation "measure size") (auto dest: size_children_of)

declare astToObject.simps [simp del]

section \<open>Parsing\<close>

text \<open>\<open>parse\<close>: the value or the error, and the converter's fields after the call.\<close>

definition parse :: "string \<Rightarrow> array_format \<Rightarrow> converter \<Rightarrow> (error + value) \<times> converter" where
  "parse simpleStr arrayFormat conv =
     (let processed = removeComments simpleStr;
          lines = processMultilineStrings processed
      in case linesToAst lines arrayFormat conv of
           (Inl e, conv') \<Rightarrow> (Inl e, conv')
         | (Inr tree, conv') \<Rightarrow> (astToObject tree, conv'))"

section \<open>Serializing\<close>

record stringify_options =
  indent :: nat
  indentChar :: string
  arrayFormat :: array_format

definition defaultOptions :: stringify_options where
  "defaultOptions = \<lparr>indent = 2, indentChar = '' '', arrayFormat = Indexed\<rparr>"

text \<open>\<open>_getIndentString\<close>: \<open>indentChar.repeat(level * indent)\<close>.\<close>

definition getIndentString :: "nat \<Rightarrow> stringify_options \<Rightarrow> string" where
  "getIndentString level opts = concat (replicate (level * indent opts) (indentChar opts))"

text \<open>
  \<open>_needsQuotes\<close>: \<open>/^\d/\<close>, the three reserved words, the six special characters,
  \<open>/^\s|\s$/\<close>.
\<close>

definition needsQuotes :: "string \<Rightarrow> bool" where
  "needsQuotes str =
     (if str \<noteq> [] \<and> is_digit (hd str) then True
      else if str = ''None'' \<or> str = ''true'' \<or> str = ''false'' then True
      else if CHR '':'' \<in> set str \<or> CHR '','' \<in> set str \<or> CHR ''['' \<in> set str
              \<or> CHR '']'' \<in> set str \<or> CHR ''{'' \<in> set str \<or> CHR ''}'' \<in> set str then True
      else if str \<noteq> [] \<and> (is_ws (hd str) \<or> is_ws (last str)) then True
      else False)"

text \<open>\<open>typeof x === 'object' && x !== null\<close>: an array or a plain object.\<close>

definition is_object :: "value \<Rightarrow> bool" where
  "is_object v = (case v of Arr xs \<Rightarrow> True | Obj kvs \<Rightarrow> True | _ \<Rightarrow> False)"

definition nonempty_array :: "value \<Rightarrow> bool" where
  "nonempty_array v = (case v of Arr xs \<Rightarrow> length xs > 0 | _ \<Rightarrow> False)"

text \<open>The loop of \<open>_shouldInlineArray\<close> and \<open>_shouldInlineObject\<close> over the items.\<close>

fun simpleItems :: "value list \<Rightarrow> bool" where
  "simpleItems [] = True"
| "simpleItems (item # items) =
     (if is_object item then False
      else if nonempty_array item then False
      else simpleItems items)"

definition shouldInlineArray :: "value list \<Rightarrow> bool" where
  "shouldInlineArray arr =
     (if length arr = 0 then True
      else if length arr > 3 then False
      else simpleItems arr)"

definition shouldInlineObject :: "(string \<times> value) list \<Rightarrow> bool" where
  "shouldInlineObject entries =
     (if length entries = 0 then True
      else if length entries > 3 then False
      else simpleItems (map snd entries))"

text \<open>
  \<open>_isEqual(a, b)\<close> with \<open>Object.prototype\<close> for \<open>b\<close>.  Its \<open>typeof\<close> is \<open>'object'\<close>, it
  is neither \<open>null\<close> nor an array, and \<open>Object.keys\<close> finds no key in it: the result is
  true exactly when \<open>a\<close> is a plain object without keys.
\<close>

definition isEqualObjectPrototype :: "value \<Rightarrow> bool" where
  "isEqualObjectPrototype a = (case a of Obj ea \<Rightarrow> length ea = 0 | _ \<Rightarrow> False)"

text \<open>
  \<open>_isEqual\<close>.  \<open>typeof\<close> is \<open>'object'\<close> for \<open>null\<close>, arrays and plain objects.  Two
  plain objects are compared by the number of their keys and, for every key of the
  first, the values \<open>a[key]\<close> and \<open>b[key]\<close>; the second is a read that also finds what
  \<open>b\<close> inherits.  A built-in function has the \<open>typeof\<close> \<open>'function'\<close>, which no value
  here has.
\<close>

fun isEqual :: "value \<Rightarrow> value \<Rightarrow> bool" where
  "isEqual (Arr xs) (Arr ys) = (length xs = length ys \<and> list_all2 isEqual xs ys)"
| "isEqual (Obj a) (Obj b) =
     (length a = length b
      \<and> list_all (\<lambda>(key, x). case obj_get b key of
                                Data y \<Rightarrow> isEqual x y
                              | ObjectPrototype \<Rightarrow> isEqualObjectPrototype x
                              | BuiltinFunction \<Rightarrow> False) a)"
| "isEqual (Arr xs) (Obj b) = False"
| "isEqual (Obj a) (Arr ys) = False"
| "isEqual a b = (a = b)"

text \<open>
  The runs the indexed form writes: from index \<open>i\<close>, the run of the elements after
  \<open>obj[i]\<close> that \<open>_isEqual\<close> finds equal to it ends before \<open>j\<close>; the scan goes on at \<open>j\<close>.
  A run is \<open>(i, j, obj[i])\<close>.
\<close>

function groupRuns :: "nat \<Rightarrow> value list \<Rightarrow> (nat \<times> nat \<times> value) list" where
  "groupRuns i [] = []"
| "groupRuns i (x # xs) =
     (let j = i + 1 + length (takeWhile (isEqual x) xs)
      in (i, j, x) # groupRuns j (dropWhile (isEqual x) xs))"
  by pat_completeness auto
termination
  by (relation "measure (\<lambda>(i, xs). length xs)") (auto simp: length_dropWhile_le le_imp_less_Suc)

lemma groupRuns_values: "(i, j, x) \<in> set (groupRuns k xs) \<Longrightarrow> x \<in> set xs"
proof (induction k xs rule: groupRuns.induct)
  case (1 i)
  then show ?case by simp
next
  case (2 k y ys)
  then show ?case
    by (auto simp: Let_def dest: set_dropWhileD)
qed

text \<open>
  A loop over a list in which every round returns its text and passes the one-shot flag
  on.
\<close>

fun thread :: "('a \<Rightarrow> bool \<Rightarrow> string \<times> bool) \<Rightarrow> 'a list \<Rightarrow> bool \<Rightarrow> string list \<times> bool" where
  "thread f [] flag = ([], flag)"
| "thread f (x # xs) flag =
     (case f x flag of (s, flag1) \<Rightarrow>
        (case thread f xs flag1 of (ss, flag2) \<Rightarrow> (s # ss, flag2)))"

lemma thread_cong [fundef_cong]:
  "xs = ys \<Longrightarrow> flag = flag' \<Longrightarrow> (\<And>x fl. x \<in> set ys \<Longrightarrow> f x fl = g x fl)
     \<Longrightarrow> thread f xs flag = thread g ys flag'"
proof -
  assume "xs = ys" "flag = flag'" and fg: "\<And>x fl. x \<in> set ys \<Longrightarrow> f x fl = g x fl"
  have "thread f ys flag' = thread g ys flag'" using fg
    by (induction ys arbitrary: flag') (simp_all split: prod.splits)
  with \<open>xs = ys\<close> \<open>flag = flag'\<close> show ?thesis by simp
qed

lemma size_entry_value: "(key, x) \<in> set entries \<Longrightarrow> size x < Suc (size_list (size_prod (\<lambda>_. 0) size) entries)"
  by (induction entries) auto

text \<open>
  \<open>_objectToSimple\<close>, with \<open>this.outerParsed\<close> passed in and returned.
\<close>

function objectToSimple :: "value \<Rightarrow> nat \<Rightarrow> stringify_options \<Rightarrow> bool \<Rightarrow> string \<times> bool" where
  "objectToSimple obj level opts flag =
     (case obj of
        Null \<Rightarrow> (''None'', flag)
      | Num d \<Rightarrow> (num_toString d, flag)
      | Bool b \<Rightarrow> (if b then ''true'' else ''false'', flag)
      | Str s \<Rightarrow>
          (if needsQuotes s then [DQ] @ escapeString s @ [DQ] else escapeString s, flag)
      | Arr xs \<Rightarrow>
          if length xs = 0 then (''[]'', flag)
          else if shouldInlineArray xs then
            (case thread (\<lambda>item fl. objectToSimple item level opts fl) xs flag of
               (items, flag') \<Rightarrow> (''['' @ join '', '' items @ '']'', flag'))
          else if arrayFormat opts = Values then
            (case thread (\<lambda>item fl.
                     case objectToSimple item (level + 1) opts fl of
                       (valueStr, fl') \<Rightarrow>
                         (getIndentString (level + 1) opts @ valueStr @ [NL], fl'))
                   xs flag of
               (ls, flag') \<Rightarrow> (trim (''[]'' @ [NL] @ concat ls), flag'))
          else
            (case thread (\<lambda>run fl.
                     case run of (i, j, x) \<Rightarrow>
                       (case objectToSimple x (level + 1) opts fl of
                          (valueStr, fl') \<Rightarrow>
                            (if j - i > 1
                             then getIndentString (level + 1) opts @ show_digits (int i) @ ''-''
                                    @ show_digits (int (j - 1)) @ '': '' @ valueStr @ [NL]
                             else getIndentString (level + 1) opts @ show_digits (int i)
                                    @ '': '' @ valueStr @ [NL], fl')))
                   (groupRuns 0 xs) flag of
               (ls, flag') \<Rightarrow> (trim (''[]'' @ [NL] @ concat ls), flag'))
      | Obj entries \<Rightarrow>
          if shouldInlineObject entries then
            (case thread (\<lambda>entry fl.
                     case entry of (key, x) \<Rightarrow>
                       (case objectToSimple x level opts fl of
                          (valueStr, fl') \<Rightarrow> (key @ '': '' @ valueStr, fl')))
                   entries flag of
               (pairs, flag') \<Rightarrow> (''{'' @ join '', '' pairs @ ''}'', flag'))
          else
            (case thread (\<lambda>entry fl.
                     case entry of (key, x) \<Rightarrow>
                       (case objectToSimple x (level + 1) opts fl of
                          (valueStr, fl') \<Rightarrow>
                            (getIndentString level opts @ key @ '': '' @ valueStr @ [NL], fl')))
                   entries True of
               (ls, flag') \<Rightarrow>
                 (trim ((if flag then ''{}'' @ [NL] else []) @ concat ls), flag'))
      | Undefined \<Rightarrow> ([], flag))"
  by pat_completeness auto
termination
proof (relation "measure (\<lambda>(obj, _). size obj)")
  show "wf (measure (\<lambda>(obj, _). size obj))" by simp
qed (auto dest: groupRuns_values size_entry_value
          simp: less_Suc_eq_le size_list_estimation')

declare objectToSimple.simps [simp del]

text \<open>
  \<open>stringify\<close>: the flag is cleared, then the value is rendered at level 0.  The result
  is the text and the converter's fields after the call.
\<close>

definition stringify :: "value \<Rightarrow> stringify_options \<Rightarrow> converter \<Rightarrow> string \<times> converter" where
  "stringify obj opts conv =
     (case objectToSimple obj 0 opts False of
        (text, flag) \<Rightarrow> (text, conv\<lparr>outerParsed := flag\<rparr>))"

text \<open>
  The branches of \<open>_objectToSimple\<close> for a non-empty array and for a plain object, each
  on its own: the inline form, the lines of the two block forms of an array, the block
  form of an array, and the inline and block forms of an object.
\<close>

definition inlineArray :: "value list \<Rightarrow> nat \<Rightarrow> stringify_options \<Rightarrow> bool \<Rightarrow> string \<times> bool" where
  "inlineArray xs level opts flag =
     (case thread (\<lambda>item fl. objectToSimple item level opts fl) xs flag of
        (items, flag') \<Rightarrow> (''['' @ join '', '' items @ '']'', flag'))"

definition valueLine :: "nat \<Rightarrow> stringify_options \<Rightarrow> value \<Rightarrow> bool \<Rightarrow> string \<times> bool" where
  "valueLine level opts item fl =
     (case objectToSimple item (level + 1) opts fl of
        (valueStr, fl') \<Rightarrow> (getIndentString (level + 1) opts @ valueStr @ [NL], fl'))"

definition runLine :: "nat \<Rightarrow> stringify_options \<Rightarrow> nat \<times> nat \<times> value \<Rightarrow> bool \<Rightarrow> string \<times> bool" where
  "runLine level opts run fl =
     (case run of (i, j, x) \<Rightarrow>
        (case objectToSimple x (level + 1) opts fl of
           (valueStr, fl') \<Rightarrow>
             (if j - i > 1
              then getIndentString (level + 1) opts @ show_digits (int i) @ ''-''
                     @ show_digits (int (j - 1)) @ '': '' @ valueStr @ [NL]
              else getIndentString (level + 1) opts @ show_digits (int i)
                     @ '': '' @ valueStr @ [NL], fl')))"

definition blockArray :: "value list \<Rightarrow> nat \<Rightarrow> stringify_options \<Rightarrow> bool \<Rightarrow> string \<times> bool" where
  "blockArray xs level opts flag =
     (if arrayFormat opts = Values
      then (case thread (valueLine level opts) xs flag of
              (ls, flag') \<Rightarrow> (trim (''[]'' @ [NL] @ concat ls), flag'))
      else (case thread (runLine level opts) (groupRuns 0 xs) flag of
              (ls, flag') \<Rightarrow> (trim (''[]'' @ [NL] @ concat ls), flag')))"

definition inlinePair :: "nat \<Rightarrow> stringify_options \<Rightarrow> string \<times> value \<Rightarrow> bool \<Rightarrow> string \<times> bool" where
  "inlinePair level opts entry fl =
     (case entry of (key, x) \<Rightarrow>
        (case objectToSimple x level opts fl of
           (valueStr, fl') \<Rightarrow> (key @ '': '' @ valueStr, fl')))"

definition inlineObject :: "(string \<times> value) list \<Rightarrow> nat \<Rightarrow> stringify_options \<Rightarrow> bool \<Rightarrow> string \<times> bool" where
  "inlineObject entries level opts flag =
     (case thread (inlinePair level opts) entries flag of
        (pairs, flag') \<Rightarrow> (''{'' @ join '', '' pairs @ ''}'', flag'))"

definition entryLine :: "nat \<Rightarrow> stringify_options \<Rightarrow> string \<times> value \<Rightarrow> bool \<Rightarrow> string \<times> bool" where
  "entryLine level opts entry fl =
     (case entry of (key, x) \<Rightarrow>
        (case objectToSimple x (level + 1) opts fl of
           (valueStr, fl') \<Rightarrow>
             (getIndentString level opts @ key @ '': '' @ valueStr @ [NL], fl')))"

definition blockObject :: "(string \<times> value) list \<Rightarrow> nat \<Rightarrow> stringify_options \<Rightarrow> bool \<Rightarrow> string \<times> bool" where
  "blockObject entries level opts flag =
     (case thread (entryLine level opts) entries True of
        (ls, flag') \<Rightarrow> (trim ((if flag then ''{}'' @ [NL] else []) @ concat ls), flag'))"

section \<open>Notions of the specification\<close>

text \<open>
  A scalar is a value that is neither a sequence nor a mapping; \<open>is_mapping\<close> holds of
  the mappings.
\<close>

definition scalar :: "value \<Rightarrow> bool" where
  "scalar v = (case v of Arr xs \<Rightarrow> False | Obj kvs \<Rightarrow> False | _ \<Rightarrow> True)"

definition is_mapping :: "value \<Rightarrow> bool" where
  "is_mapping v = (case v of Obj kvs \<Rightarrow> True | _ \<Rightarrow> False)"

text \<open>
  Whether rendering a value renders a mapping in block form.  In the indexed form of a
  block sequence only the first element of every run is rendered.
\<close>

function rendersBlockMapping :: "stringify_options \<Rightarrow> value \<Rightarrow> bool" where
  "rendersBlockMapping opts v =
     (case v of
        Obj entries \<Rightarrow> \<not> shouldInlineObject entries
      | Arr xs \<Rightarrow>
          xs \<noteq> [] \<and> \<not> shouldInlineArray xs \<and>
          (if arrayFormat opts = Values then list_ex (\<lambda>x. rendersBlockMapping opts x) xs
           else list_ex (\<lambda>run. case run of (i, j, x) \<Rightarrow> rendersBlockMapping opts x)
                  (groupRuns 0 xs))
      | _ \<Rightarrow> False)"
  by pat_completeness auto
termination
proof (relation "measure (\<lambda>(opts, v). size v)")
  show "wf (measure (\<lambda>(opts, v). size v))" by simp
qed (auto dest: groupRuns_values simp: less_Suc_eq_le size_list_estimation')

declare rendersBlockMapping.simps [simp del]

text \<open>
  Whether a block mapping has been rendered earlier in the call, for every element of
  a list that is rendered in order: before the element at position \<open>k\<close> one has, when
  one had before the list was reached (\<open>seen\<close>) or rendering one of the \<open>k\<close> elements in
  front of it renders one.
\<close>

definition renderedBefore :: "stringify_options \<Rightarrow> bool \<Rightarrow> value list \<Rightarrow> bool list" where
  "renderedBefore opts seen xs =
     map (\<lambda>k. seen \<or> list_ex (rendersBlockMapping opts) (take k xs)) [0 ..< length xs]"

lemma zip_runs_values: "((i, j, x), b) \<in> set (zip (groupRuns k xs) ys) \<Longrightarrow> x \<in> set xs"
  by (auto dest: set_zip_leftD groupRuns_values)


text \<open>
  The text of a value in the specification's words, given whether a block mapping has
  been rendered earlier in the call (\<open>seen\<close>).  A mapping in block form is preceded by the
  marker line \<open>{}\<close> exactly when one has; its entries are rendered after it, so for them
  one has.  The elements of a sequence in block form are rendered in order (in the
  indexed form, the first element of every run).  In an inline sequence or mapping
  every element is a scalar.
\<close>

function markedText :: "stringify_options \<Rightarrow> bool \<Rightarrow> nat \<Rightarrow> value \<Rightarrow> string" where
  "markedText opts seen level v =
     (case v of
        Null \<Rightarrow> ''None''
      | Num d \<Rightarrow> num_toString d
      | Bool b \<Rightarrow> (if b then ''true'' else ''false'')
      | Str s \<Rightarrow> (if needsQuotes s then [DQ] @ escapeString s @ [DQ] else escapeString s)
      | Undefined \<Rightarrow> []
      | Arr xs \<Rightarrow>
          if xs = [] then ''[]''
          else if shouldInlineArray xs then
            ''['' @ join '', '' (map (\<lambda>x. markedText opts seen level x) xs) @ '']''
          else if arrayFormat opts = Values then
            trim (''[]'' @ [NL] @ concat
              (map (\<lambda>(x, before).
                      getIndentString (level + 1) opts
                      @ markedText opts before (level + 1) x @ [NL])
                 (zip xs (renderedBefore opts seen xs))))
          else
            trim (''[]'' @ [NL] @ concat
              (map (\<lambda>((i, j, x), before).
                      getIndentString (level + 1) opts
                      @ (if j - i > 1
                         then show_digits (int i) @ ''-'' @ show_digits (int (j - 1))
                         else show_digits (int i))
                      @ '': '' @ markedText opts before (level + 1) x @ [NL])
                 (zip (groupRuns 0 xs)
                      (renderedBefore opts seen (map (\<lambda>(i, j, x). x) (groupRuns 0 xs))))))
      | Obj entries \<Rightarrow>
          if shouldInlineObject entries then
            ''{'' @ join '', '' (map (\<lambda>(key, x). key @ '': '' @ markedText opts seen level x)
                                   entries) @ ''}''
          else
            trim ((if seen then ''{}'' @ [NL] else [])
                  @ concat (map (\<lambda>(key, x).
                                   getIndentString level opts @ key @ '': ''
                                   @ markedText opts True (level + 1) x @ [NL])
                              entries)))"
  by pat_completeness auto
termination
proof (relation "measure (\<lambda>(opts, seen, level, v). size v)")
  show "wf (measure (\<lambda>(opts, seen, level, v). size v))" by simp
qed (auto dest: zip_runs_values size_entry_value set_zip_leftD
          simp: less_Suc_eq_le size_list_estimation')

declare markedText.simps [simp del]

text \<open>The style \<open>_detectIndentType\<close> reads off the first indented line, if there is one.\<close>

definition indentedLine :: "string list \<Rightarrow> string option" where
  "indentedLine lines = List.find (\<lambda>line. \<not> comment_line line \<and> takeWhile is_ws line \<noteq> []) lines"

definition styleOfLine :: "string \<Rightarrow> indent_style" where
  "styleOfLine line =
     (if TAB \<in> set (takeWhile is_ws line) then \<lparr>indentType = Tab, indentSize = 1\<rparr>
      else \<lparr>indentType = Space, indentSize = length (takeWhile is_ws line)\<rparr>)"

text \<open>
  A value of the data model: no \<open>Undefined\<close> anywhere, and the keys of every mapping
  are unique.  \<open>plainKeys\<close> holds when no mapping in the value has a key \<open>__proto__\<close>.
\<close>

fun wellFormed :: "value \<Rightarrow> bool" where
  "wellFormed Undefined = False"
| "wellFormed (Arr xs) = list_all wellFormed xs"
| "wellFormed (Obj kvs) = (distinct (map fst kvs) \<and> list_all (\<lambda>(key, x). wellFormed x) kvs)"
| "wellFormed v = True"

fun plainKeys :: "value \<Rightarrow> bool" where
  "plainKeys (Arr xs) = list_all plainKeys xs"
| "plainKeys (Obj kvs) =
     (''__proto__'' \<notin> set (map fst kvs) \<and> list_all (\<lambda>(key, x). plainKeys x) kvs)"
| "plainKeys v = True"

text \<open>
  Structural equality in the specification's words: the same kind; scalars by value;
  sequences elementwise; mappings by identical key sets and recursively equal values
  under every key, whatever the order of the keys.
\<close>

fun deepEqual :: "value \<Rightarrow> value \<Rightarrow> bool" where
  "deepEqual (Arr xs) (Arr ys) = list_all2 deepEqual xs ys"
| "deepEqual (Obj a) (Obj b) =
     (set (map fst a) = set (map fst b)
      \<and> list_all (\<lambda>(key, x). case map_of b key of
                                Some y \<Rightarrow> deepEqual x y
                              | None \<Rightarrow> False) a)"
| "deepEqual (Arr xs) (Obj b) = False"
| "deepEqual (Obj a) (Arr ys) = False"
| "deepEqual a b = (a = b)"


text \<open>
  The open containers while the lines are read, as the specification describes the
  frame stack: the kind and the indentation level of every open container, innermost
  first, the implicit top-level mapping at level \<open>-1\<close> last.  \<open>popKinds\<close> closes the
  containers whose level is not below the level of the line; what remains first is the
  parent of the line.
\<close>

type_synonym open_kinds = "(tp \<times> int) \<times> (tp \<times> int) list"


fun popKinds :: "tp \<times> int \<Rightarrow> (tp \<times> int) list \<Rightarrow> int \<Rightarrow> open_kinds" where
  "popKinds k [] lv = (k, [])"
| "popKinds k (g # below) lv = (if snd k \<ge> lv then popKinds g below lv else (k, g # below))"

definition parentKind :: "indent_style \<Rightarrow> open_kinds \<Rightarrow> string \<Rightarrow> tp" where
  "parentKind sty ks line = fst (fst (popKinds (fst ks) (snd ks) (getIndentLevel sty line)))"

text \<open>
  A line is invalid when the line loop does not skip it, it has no colon, and the
  pure-value-sequence exception does not apply: the format is not \<open>values\<close> or the
  parent of the line is not an open sequence.
\<close>

definition invalidLine :: "array_format \<Rightarrow> indent_style \<Rightarrow> open_kinds \<Rightarrow> string \<Rightarrow> bool" where
  "invalidLine fmt sty ks line =
     (\<not> comment_line line \<and> CHR '':'' \<notin> set line
      \<and> \<not> (fmt = Values \<and> parentKind sty ks line = TArray))"

text \<open>
  The open containers after a line: a key/value line whose value is classified as a
  mapping or a sequence opens a container at the level of the line, under the parent
  of the line; any other line that is not skipped leaves the parent innermost.
\<close>

definition kindStep :: "array_format \<Rightarrow> indent_style \<Rightarrow> string \<Rightarrow> open_kinds \<Rightarrow> open_kinds" where
  "kindStep fmt sty line ks =
     (if comment_line line then ks
      else
        (let lv = getIndentLevel sty line;
             parent = popKinds (fst ks) (snd ks) lv
         in if fmt = Values \<and> fst (fst parent) = TArray \<and> CHR '':'' \<notin> set line then parent
            else
              (case indexOf (trim line) (CHR '':'') of
                 None \<Rightarrow> parent
               | Some colonIndex \<Rightarrow>
                   (let ty = fst (classify (trim (substring (trim line) (colonIndex + 1)
                                                    (length (trim line)))))
                    in if ty = TObject \<or> ty = TArray
                       then ((ty, lv), fst parent # snd parent)
                       else parent))))"


text \<open>
  The bodies of the two child loops of \<open>_astToObject\<close>, each on its own, and the
  reconciliation that follows the loop over the children of a sequence node.
\<close>

definition objectChild :: "ast \<Rightarrow> (string \<times> value) list \<Rightarrow> error + (string \<times> value) list" where
  "objectChild child obj =
     (if a_type child = TObject \<or> a_type child = TArray
      then (case astToObject child of
              Inl e \<Rightarrow> Inl e
            | Inr x \<Rightarrow> Inr (obj_set obj (a_key child) x))
      else Inr (obj_set obj (a_key child) (a_value child)))"

definition arrayChild :: "ast \<Rightarrow> recon \<Rightarrow> error + recon" where
  "arrayChild child st =
     (if a_key child = ''-''
      then (case astToObject child of
              Inl e \<Rightarrow> Inl e
            | Inr x \<Rightarrow> Inr (st\<lparr>r_dash := r_dash st @ [x]\<rparr>))
      else if CHR ''-'' \<in> set (a_key child)
      then (let parts = map js_Number (split_dash (a_key child));
                start = (case parts of a # _ \<Rightarrow> a | _ \<Rightarrow> NaN);
                end = (case parts of _ # b # _ \<Rightarrow> b | _ \<Rightarrow> NaN)
            in case astToObject child of
                 Inl e \<Rightarrow> Inl e
               | Inr x \<Rightarrow> rangeLoop start end x st)
      else (let index = js_parseInt (a_key child)
            in if index \<noteq> NaN
               then (case astToObject child of
                       Inl e \<Rightarrow> Inl e
                     | Inr x \<Rightarrow> pushIndex index x st)
               else Inr st))"

definition reconcile :: "recon \<Rightarrow> value list" where
  "reconcile st = fillHoles (placeDashes (r_explicit st) (r_dash st) 0 (r_array st))"


text \<open>The kinds and levels of the frames of a stack.\<close>

definition kinds_of :: "frame \<times> frame list \<Rightarrow> open_kinds" where
  "kinds_of stack = ((f_type (fst stack), f_indent (fst stack)),
                     map (\<lambda>f. (f_type f, f_indent f)) (snd stack))"

text \<open>
  For the reconciliation of a sequence block: the slot of an array under construction
  at a position (a hole past its end), the number an index is held as, and one round
  of the range loop.
\<close>

definition slot :: "value list \<Rightarrow> nat \<Rightarrow> value" where
  "slot a i = (if i < length a then a ! i else Undefined)"

definition idx :: "nat \<Rightarrow> jsnum" where
  "idx n = Fin (Decimal (int n) 0)"

definition rangeStep :: "nat \<Rightarrow> value \<Rightarrow> nat \<Rightarrow> recon \<Rightarrow> recon" where
  "rangeStep s v j st =
     st\<lparr>r_array := arr_set (r_array st) (idx (s + j)) v,
        r_explicit := r_explicit st @ [idx (s + j)]\<rparr>"

text \<open>
  What the children of a sequence block mean, in the specification's words: a
  placeholder with its value, or a claim of the indices of an inclusive range (a plain
  index claims the range from itself to itself) for a value.
\<close>

datatype directive = Placeholder "value" | Claim nat nat "value"

text \<open>
  A child of a sequence node stands for a directive: it materializes to the
  directive's value, which is not \<open>undefined\<close>; a placeholder has the key \<open>-\<close>; a
  claim has a key of two numbers joined by a hyphen, the bounds of its range in order,
  or a key without a hyphen that is read as its one index.
\<close>

definition childDirective :: "ast \<Rightarrow> directive \<Rightarrow> bool" where
  "childDirective child d =
     (case d of
        Placeholder v \<Rightarrow>
          a_key child = ''-'' \<and> astToObject child = Inr v \<and> v \<noteq> Undefined
      | Claim s e v \<Rightarrow>
          astToObject child = Inr v \<and> v \<noteq> Undefined \<and> s \<le> e \<and> a_key child \<noteq> ''-''
          \<and> ((CHR ''-'' \<in> set (a_key child)
               \<and> map js_Number (split_dash (a_key child)) = [idx s, idx e])
              \<or> (CHR ''-'' \<notin> set (a_key child) \<and> s = e \<and> js_parseInt (a_key child) = idx s)))"

text \<open>The values of the placeholders, in encounter order.\<close>

fun placeholders :: "directive list \<Rightarrow> value list" where
  "placeholders [] = []"
| "placeholders (Placeholder v # ds) = v # placeholders ds"
| "placeholders (Claim s e v # ds) = placeholders ds"

text \<open>Whether an index is claimed, and the value it holds: the last claim wins.\<close>

fun isClaimed :: "directive list \<Rightarrow> nat \<Rightarrow> bool" where
  "isClaimed [] i = False"
| "isClaimed (Placeholder v # ds) i = isClaimed ds i"
| "isClaimed (Claim s e v # ds) i = ((s \<le> i \<and> i \<le> e) \<or> isClaimed ds i)"

fun claimedValue :: "value \<Rightarrow> directive list \<Rightarrow> nat \<Rightarrow> value" where
  "claimedValue x [] i = x"
| "claimedValue x (Placeholder v # ds) i = claimedValue x ds i"
| "claimedValue x (Claim s e v # ds) i = claimedValue (if s \<le> i \<and> i \<le> e then v else x) ds i"

text \<open>One more than the highest claimed index (and at least \<open>b\<close>).\<close>

fun claimBound :: "nat \<Rightarrow> directive list \<Rightarrow> nat" where
  "claimBound b [] = b"
| "claimBound b (Placeholder v # ds) = claimBound b ds"
| "claimBound b (Claim s e v # ds) = claimBound (max b (Suc e)) ds"

text \<open>How many indices the claims list, counted with repetition.\<close>

fun claimCount :: "directive list \<Rightarrow> nat" where
  "claimCount [] = 0"
| "claimCount (Placeholder v # ds) = claimCount ds"
| "claimCount (Claim s e v # ds) = (Suc e - s) + claimCount ds"

lemma isClaimed_bound: "isClaimed ds i \<Longrightarrow> i < claimBound b ds"
proof (induction b ds rule: claimBound.induct)
  case (3 b s e v ds)
  have mono: "a \<le> claimBound a ds" for a
    by (induction a ds rule: claimBound.induct) auto
  from 3 show ?case
  proof (cases "s \<le> i \<and> i \<le> e")
    case True
    with mono [of "max b (Suc e)"] show ?thesis by simp
  qed simp
qed simp_all

text \<open>
  The placeholder cursor of the specification: from the cursor, the first index that
  is not claimed.
\<close>

function nextFree :: "directive list \<Rightarrow> nat \<Rightarrow> nat" where
  "nextFree ds cur = (if isClaimed ds cur then nextFree ds (Suc cur) else cur)"
  by pat_completeness auto
termination
proof (relation "measure (\<lambda>(ds, cur). claimBound 0 ds - cur)")
  show "wf (measure (\<lambda>(ds, cur). claimBound 0 ds - cur))" by simp
next
  fix ds cur assume "isClaimed ds cur"
  from isClaimed_bound [OF this, of 0]
  show "((ds, Suc cur), (ds, cur)) \<in> measure (\<lambda>(ds, cur). claimBound 0 ds - cur)" by simp
qed

declare nextFree.simps [simp del]

text \<open>
  The placeholders with the indices they are assigned: each goes to the first free
  index from the cursor, and the cursor moves to the index after it.
\<close>

fun assign :: "directive list \<Rightarrow> nat \<Rightarrow> value list \<Rightarrow> (nat \<times> value) list" where
  "assign ds cur [] = []"
| "assign ds cur (p # ps) = (nextFree ds cur, p) # assign ds (Suc (nextFree ds cur)) ps"

text \<open>
  The reconciled sequence of the specification: it reaches to the highest claimed or
  assigned index; a claimed index holds the value of the last claim that covers it, an
  assigned index its placeholder, every other position the number \<open>0\<close>.
\<close>

definition reconciledLength :: "directive list \<Rightarrow> nat" where
  "reconciledLength ds =
     max (claimBound 0 ds)
         (case assign ds 0 (placeholders ds) of [] \<Rightarrow> 0 | a # as \<Rightarrow> Suc (fst (last (a # as))))"

definition reconciled :: "directive list \<Rightarrow> value list" where
  "reconciled ds =
     map (\<lambda>i. if isClaimed ds i then claimedValue Undefined ds i
              else (case map_of (assign ds 0 (placeholders ds)) i of
                      Some p \<Rightarrow> p
                    | None \<Rightarrow> Num (Decimal 0 0)))
         [0 ..< reconciledLength ds]"

text \<open>One more than the last assigned index, and the value a directive carries.\<close>

definition assignEnd :: "(nat \<times> value) list \<Rightarrow> nat" where
  "assignEnd A = (case A of [] \<Rightarrow> 0 | a # as \<Rightarrow> Suc (fst (last (a # as))))"

definition directiveValue :: "directive \<Rightarrow> value" where
  "directiveValue d = (case d of Placeholder v \<Rightarrow> v | Claim s e v \<Rightarrow> v)"

section \<open>Properties\<close>

lemma objectToSimple_scalar:
  "objectToSimple Null level opts flag = (''None'', flag)"
  "objectToSimple (Num d) level opts flag = (num_toString d, flag)"
  "objectToSimple (Bool b) level opts flag = (if b then ''true'' else ''false'', flag)"
  "objectToSimple (Str s) level opts flag =
     (if needsQuotes s then [DQ] @ escapeString s @ [DQ] else escapeString s, flag)"
  "objectToSimple Undefined level opts flag = ([], flag)"
  by (simp_all add: objectToSimple.simps)

lemma objectToSimple_Arr:
  "objectToSimple (Arr xs) level opts flag =
     (if length xs = 0 then (''[]'', flag)
      else if shouldInlineArray xs then inlineArray xs level opts flag
      else blockArray xs level opts flag)"
  unfolding inlineArray_def blockArray_def valueLine_def [abs_def] runLine_def [abs_def]
  by (subst objectToSimple.simps) simp

lemma objectToSimple_Obj:
  "objectToSimple (Obj entries) level opts flag =
     (if shouldInlineObject entries then inlineObject entries level opts flag
      else blockObject entries level opts flag)"
  unfolding inlineObject_def blockObject_def inlinePair_def [abs_def] entryLine_def [abs_def]
  by (subst objectToSimple.simps) simp

lemma parseString_escapeChar:
  "parseString (escapeChar c @ rest) = c # parseString rest"
proof (cases rest)
  case Nil
  then show ?thesis by (simp add: escapeChar_def unescapeChar_def)
next
  case (Cons d ds)
  then show ?thesis by (simp add: escapeChar_def unescapeChar_def)
qed

lemma parseString_escapeString_append:
  "parseString (escapeString s @ rest) = s @ parseString rest"
  by (induction s) (simp_all add: escapeString_def parseString_escapeChar)

text \<open>
  Claim C10.  The serializer's escape encoding maps line feed, tab, backslash and double
  quote to their two-character escapes, and the parser's escape decoder applied to the
  encoding of any string returns that string.
\<close>

theorem escape_roundtrip:
  "parseString (escapeString s) = s
   \<and> escapeString [NL] = [BSL, CHR ''n'']
   \<and> escapeString [TAB] = [BSL, CHR ''t'']
   \<and> escapeString [BSL] = [BSL, BSL]
   \<and> escapeString [DQ] = [BSL, DQ]"
proof -
  have "parseString (escapeString s @ []) = s @ parseString []"
    by (rule parseString_escapeString_append)
  then show ?thesis by (simp add: escapeString_def escapeChar_def)
qed

theorem escape_roundtrip_witness:
  "parseString (escapeString [CHR ''a'', BSL, DQ, NL, BSL, CHR ''n'', TAB]) =
     [CHR ''a'', BSL, DQ, NL, BSL, CHR ''n'', TAB]"
  using escape_roundtrip [of "[CHR ''a'', BSL, DQ, NL, BSL, CHR ''n'', TAB]"] by simp

lemma if_chain: "(if A then True else if B then True else if C then True else if D then True else False) = (A \<or> B \<or> C \<or> D)"
  by simp

lemma special_chars: "(CHR '':'' \<in> set s \<or> CHR '','' \<in> set s \<or> CHR ''['' \<in> set s
              \<or> CHR '']'' \<in> set s \<or> CHR ''{'' \<in> set s \<or> CHR ''}'' \<in> set s) = (set s \<inter> set '':,[]{}'' \<noteq> {})"
  by auto

lemma needsQuotes_iff:
  "needsQuotes s \<longleftrightarrow>
     (s \<noteq> [] \<and> is_digit (hd s))
     \<or> s = ''None'' \<or> s = ''true'' \<or> s = ''false''
     \<or> set s \<inter> set '':,[]{}'' \<noteq> {}
     \<or> (s \<noteq> [] \<and> (is_ws (hd s) \<or> is_ws (last s)))"
  unfolding needsQuotes_def if_chain special_chars by (simp only: disj_assoc)

lemma stringify_Str:
  "fst (stringify (Str s) opts conv) =
     (if needsQuotes s then [DQ] @ escapeString s @ [DQ] else escapeString s)"
  by (simp add: stringify_def objectToSimple_scalar)

lemma needsQuotes_21: "needsQuotes ''21''"
  by (simp add: needsQuotes_def is_digit_def)

lemma needsQuotes_hello: "\<not> needsQuotes ''hello''"
  by (simp add: needsQuotes_def is_digit_def is_ws_def)

lemma needsQuotes_a_b: "needsQuotes ''a: b''"
  by (simp add: needsQuotes_def is_digit_def is_ws_def)

text \<open>
  Claim C6.  A string is written between double quotes, escape-encoded, exactly when it
  starts with a digit, is \<open>None\<close>, \<open>true\<close> or \<open>false\<close>, contains one of
  \<open>: , [ ] { }\<close>, or starts or ends with white space; otherwise it is written
  escape-encoded without quotes.  The string \<open>21\<close> is quoted, \<open>hello\<close> is not,
  \<open>a: b\<close> is.  A string with a colon and two double quotes is written between quotes
  with both quotes escaped; a string with a tab, a backslash and a line feed and none
  of the reasons for quotes is written without quotes, the three escaped.
\<close>

theorem string_quoting:
  "fst (objectToSimple (Str s) level opts flag) =
     (if (s \<noteq> [] \<and> is_digit (hd s))
         \<or> s = ''None'' \<or> s = ''true'' \<or> s = ''false''
         \<or> set s \<inter> set '':,[]{}'' \<noteq> {}
         \<or> (s \<noteq> [] \<and> (is_ws (hd s) \<or> is_ws (last s)))
      then [DQ] @ escapeString s @ [DQ]
      else escapeString s)
   \<and> fst (stringify (Str ''21'') opts conv) = [DQ] @ ''21'' @ [DQ]
   \<and> fst (stringify (Str ''hello'') opts conv) = ''hello''
   \<and> fst (stringify (Str ''a: b'') opts conv) = [DQ] @ ''a: b'' @ [DQ]
   \<and> fst (stringify (Str (''a: '' @ [DQ] @ ''b'' @ [DQ])) opts conv) =
       [DQ] @ ''a: '' @ [BSL, DQ] @ ''b'' @ [BSL, DQ] @ [DQ]
   \<and> fst (stringify (Str (''x'' @ [TAB] @ ''y'' @ [BSL] @ ''z'' @ [NL] @ ''w'')) opts conv) =
       ''x'' @ [BSL] @ ''ty'' @ [BSL, BSL] @ ''z'' @ [BSL] @ ''nw''"
proof -
  have "fst (objectToSimple (Str s) level opts flag) =
     (if needsQuotes s then [DQ] @ escapeString s @ [DQ] else escapeString s)"
    by (simp add: objectToSimple_scalar)
  moreover have "fst (stringify (Str ''21'') opts conv) = [DQ] @ ''21'' @ [DQ]"
    by (simp add: stringify_Str needsQuotes_21 escapeString_def escapeChar_def)
  moreover have "fst (stringify (Str ''hello'') opts conv) = ''hello''"
    by (simp add: stringify_Str needsQuotes_hello escapeString_def escapeChar_def)
  moreover have "fst (stringify (Str ''a: b'') opts conv) = [DQ] @ ''a: b'' @ [DQ]"
    by (simp add: stringify_Str needsQuotes_a_b escapeString_def escapeChar_def)
  moreover have "fst (stringify (Str (''a: '' @ [DQ] @ ''b'' @ [DQ])) opts conv) =
       [DQ] @ ''a: '' @ [BSL, DQ] @ ''b'' @ [BSL, DQ] @ [DQ]"
    by (simp add: stringify_Str needsQuotes_def is_digit_def is_ws_def escapeString_def
          escapeChar_def)
  moreover have "fst (stringify (Str (''x'' @ [TAB] @ ''y'' @ [BSL] @ ''z'' @ [NL] @ ''w'')) opts conv) =
       ''x'' @ [BSL] @ ''ty'' @ [BSL, BSL] @ ''z'' @ [BSL] @ ''nw''"
    by (simp add: stringify_Str needsQuotes_def is_digit_def is_ws_def escapeString_def
          escapeChar_def)
  ultimately show ?thesis by (simp only: needsQuotes_iff simp_thms)
qed

theorem string_quoting_witness:
  "fst (objectToSimple (Str ''  x'') 0 defaultOptions False) = [DQ] @ ''  x'' @ [DQ]
   \<and> fst (objectToSimple (Str ''x y'') 0 defaultOptions False) = ''x y''
   \<and> fst (objectToSimple (Str ('' '' @ [DQ, NL])) 0 defaultOptions False)
       = [DQ] @ '' '' @ [BSL, DQ, BSL] @ ''n'' @ [DQ]"
proof -
  have c: "is_ws (hd ('' '' @ [DQ, NL]))" by (simp add: is_ws_def)
  have e3: "escapeString ('' '' @ [DQ, NL]) = '' '' @ [BSL, DQ, BSL] @ ''n''"
    by (simp add: escapeString_def escapeChar_def)
  from string_quoting [of "'' '' @ [DQ, NL]" 0 defaultOptions False] c e3
  have 3: "fst (objectToSimple (Str ('' '' @ [DQ, NL])) 0 defaultOptions False)
       = [DQ] @ '' '' @ [BSL, DQ, BSL] @ ''n'' @ [DQ]"
    by simp
  have a: "is_ws (hd ''  x'')" by (simp add: is_ws_def)
  have b: "\<not> ((''x y'' \<noteq> [] \<and> is_digit (hd ''x y''))
         \<or> ''x y'' = ''None'' \<or> ''x y'' = ''true'' \<or> ''x y'' = ''false''
         \<or> set ''x y'' \<inter> set '':,[]{}'' \<noteq> {}
         \<or> (''x y'' \<noteq> [] \<and> (is_ws (hd ''x y'') \<or> is_ws (last ''x y''))))"
    by (simp add: is_ws_def is_digit_def)
  have e1: "escapeString ''  x'' = ''  x''" by (simp add: escapeString_def escapeChar_def)
  have e2: "escapeString ''x y'' = ''x y''" by (simp add: escapeString_def escapeChar_def)
  from string_quoting [of "''  x''" 0 defaultOptions False] a e1
  have 1: "fst (objectToSimple (Str ''  x'') 0 defaultOptions False) = [DQ] @ ''  x'' @ [DQ]"
    by simp
  from string_quoting [of "''x y''" 0 defaultOptions False] b e2
  have 2: "fst (objectToSimple (Str ''x y'') 0 defaultOptions False) = ''x y''"
    by (simp only: if_False)
  from 1 2 3 show ?thesis by simp
qed

lemma scalar_item: "scalar x = (\<not> is_object x \<and> \<not> nonempty_array x)"
  by (cases x) (simp_all add: is_object_def nonempty_array_def scalar_def)

lemma simpleItems_iff: "simpleItems xs = list_all scalar xs"
  by (induction xs) (auto simp: scalar_item)

lemma scalar_flag: "scalar x \<Longrightarrow> snd (objectToSimple x level opts fl) = fl"
  by (cases x) (simp_all add: objectToSimple_scalar scalar_def)

lemma scalar_text: "scalar x \<Longrightarrow> fst (objectToSimple x level opts fl) = fst (objectToSimple x level opts fl')"
  by (cases x) (simp_all add: objectToSimple_scalar scalar_def)

lemma thread_scalars:
  "list_all scalar xs \<Longrightarrow>
     thread (\<lambda>item fl. objectToSimple item level opts fl) xs flag =
       (map (\<lambda>x. fst (objectToSimple x level opts flag)) xs, flag)"
  by (induction xs) (simp_all add: case_prod_beta scalar_flag)

lemma thread_scalar_pairs:
  "list_all scalar (map snd entries) \<Longrightarrow>
     thread (inlinePair level opts) entries flag =
       (map (\<lambda>(key, x). key @ '': '' @ fst (objectToSimple x level opts flag)) entries, flag)"
  by (induction entries) (simp_all add: case_prod_beta scalar_flag inlinePair_def)

lemma shouldInlineArray_iff:
  "shouldInlineArray xs = (length xs \<le> 3 \<and> list_all scalar xs)"
  by (cases xs) (auto simp: shouldInlineArray_def simpleItems_iff)

lemma shouldInlineObject_iff:
  "shouldInlineObject entries = (length entries \<le> 3 \<and> list_all scalar (map snd entries))"
  by (cases entries) (auto simp: shouldInlineObject_def simpleItems_iff)

lemma not_scalar_iff: "\<not> scalar x \<longleftrightarrow> is_mapping x \<or> isArray x"
  by (cases x) (simp_all add: scalar_def is_mapping_def isArray_def)

lemma block_item: "is_mapping x \<or> nonempty_array x \<Longrightarrow> \<not> scalar x"
  by (cases x) (simp_all add: is_mapping_def nonempty_array_def scalar_def)

lemma block_cond: "list_ex (\<lambda>x. is_mapping x \<or> nonempty_array x) xs \<Longrightarrow> \<not> list_all scalar xs"
  by (induction xs) (use block_item in auto)

lemma stringify_text: "fst (stringify v opts conv) = fst (objectToSimple v 0 opts False)"
  by (simp add: stringify_def case_prod_beta)

lemma three_numbers:
  "fst (objectToSimple (Arr [Num (Decimal 1 0), Num (Decimal 2 0), Num (Decimal 3 0)]) 0
          defaultOptions False) = ''[1, 2, 3]''"
  by code_simp

lemma four_numbers:
  "fst (objectToSimple (Arr [Num (Decimal 1 0), Num (Decimal 2 0), Num (Decimal 3 0),
          Num (Decimal 4 0)]) 0 defaultOptions False) =
     ''[]'' @ [NL] @ ''  0: 1'' @ [NL] @ ''  1: 2'' @ [NL] @ ''  2: 3'' @ [NL] @ ''  3: 4''"
  by code_simp

lemma three_entries:
  "fst (objectToSimple (Obj [(''a'', Num (Decimal 1 0)), (''b'', Num (Decimal 2 0)),
          (''c'', Num (Decimal 3 0))]) 0 defaultOptions False) = ''{a: 1, b: 2, c: 3}''"
  by code_simp

lemma four_entries:
  "fst (objectToSimple (Obj [(''a'', Num (Decimal 1 0)), (''b'', Num (Decimal 2 0)),
          (''c'', Num (Decimal 3 0)), (''d'', Num (Decimal 4 0))]) 0 defaultOptions False) =
     ''a: 1'' @ [NL] @ ''b: 2'' @ [NL] @ ''c: 3'' @ [NL] @ ''d: 4''"
  by code_simp

text \<open>
  Claim C5, as amended.  A non-empty sequence or mapping with at most three entries,
  all of them scalars, is written inline; one with more than three entries, or with an
  entry that is a mapping or a non-empty sequence, is written as a block.  Three
  numbers give the inline form, four the block form.
\<close>

theorem inline_threshold:
  "(xs \<noteq> [] \<and> length xs \<le> 3 \<and> list_all scalar xs \<longrightarrow>
      objectToSimple (Arr xs) level opts flag =
        (''['' @ join '', '' (map (\<lambda>x. fst (objectToSimple x level opts flag)) xs) @ '']'', flag))
   \<and> (length xs > 3 \<or> list_ex (\<lambda>x. is_mapping x \<or> nonempty_array x) xs \<longrightarrow>
      objectToSimple (Arr xs) level opts flag = blockArray xs level opts flag)
   \<and> (entries \<noteq> [] \<and> length entries \<le> 3 \<and> list_all scalar (map snd entries) \<longrightarrow>
      objectToSimple (Obj entries) level opts flag =
        (''{'' @ join '', ''
           (map (\<lambda>(key, x). key @ '': '' @ fst (objectToSimple x level opts flag)) entries)
         @ ''}'', flag))
   \<and> (length entries > 3 \<or> list_ex (\<lambda>x. is_mapping x \<or> nonempty_array x) (map snd entries) \<longrightarrow>
      objectToSimple (Obj entries) level opts flag = blockObject entries level opts flag)
   \<and> fst (stringify (Arr [Num (Decimal 1 0), Num (Decimal 2 0), Num (Decimal 3 0)])
           defaultOptions conv) = ''[1, 2, 3]''
   \<and> fst (stringify (Arr [Num (Decimal 1 0), Num (Decimal 2 0), Num (Decimal 3 0),
           Num (Decimal 4 0)]) defaultOptions conv) =
       ''[]'' @ [NL] @ ''  0: 1'' @ [NL] @ ''  1: 2'' @ [NL] @ ''  2: 3'' @ [NL] @ ''  3: 4''
   \<and> fst (stringify (Obj [(''a'', Num (Decimal 1 0)), (''b'', Num (Decimal 2 0)),
           (''c'', Num (Decimal 3 0))]) defaultOptions conv) = ''{a: 1, b: 2, c: 3}''
   \<and> fst (stringify (Obj [(''a'', Num (Decimal 1 0)), (''b'', Num (Decimal 2 0)),
           (''c'', Num (Decimal 3 0)), (''d'', Num (Decimal 4 0))]) defaultOptions conv) =
       ''a: 1'' @ [NL] @ ''b: 2'' @ [NL] @ ''c: 3'' @ [NL] @ ''d: 4''"
proof -
  have 1: "xs \<noteq> [] \<and> length xs \<le> 3 \<and> list_all scalar xs \<longrightarrow>
      objectToSimple (Arr xs) level opts flag =
        (''['' @ join '', '' (map (\<lambda>x. fst (objectToSimple x level opts flag)) xs) @ '']'', flag)"
    by (simp add: objectToSimple_Arr shouldInlineArray_iff inlineArray_def thread_scalars)
  have 2: "length xs > 3 \<or> list_ex (\<lambda>x. is_mapping x \<or> nonempty_array x) xs \<longrightarrow>
      objectToSimple (Arr xs) level opts flag = blockArray xs level opts flag"
    using block_cond [of xs] by (auto simp: objectToSimple_Arr shouldInlineArray_iff)
  have 3: "entries \<noteq> [] \<and> length entries \<le> 3 \<and> list_all scalar (map snd entries) \<longrightarrow>
      objectToSimple (Obj entries) level opts flag =
        (''{'' @ join '', ''
           (map (\<lambda>(key, x). key @ '': '' @ fst (objectToSimple x level opts flag)) entries)
         @ ''}'', flag)"
    by (simp add: objectToSimple_Obj shouldInlineObject_iff inlineObject_def thread_scalar_pairs)
  have 4: "length entries > 3 \<or> list_ex (\<lambda>x. is_mapping x \<or> nonempty_array x) (map snd entries) \<longrightarrow>
      objectToSimple (Obj entries) level opts flag = blockObject entries level opts flag"
    using block_cond [of "map snd entries"] by (auto simp: objectToSimple_Obj shouldInlineObject_iff)
  show ?thesis
    unfolding stringify_text
    using 1 2 3 4 three_numbers four_numbers three_entries four_entries
    by (intro conjI) assumption+
qed

theorem inline_threshold_witness:
  "objectToSimple (Arr [Null, Str ''x'']) 0 defaultOptions False = (''[None, x]'', False)
   \<and> objectToSimple (Arr [Arr [Null]]) 0 defaultOptions False
       = blockArray [Arr [Null]] 0 defaultOptions False
   \<and> objectToSimple (Obj [(''k'', Null)]) 0 defaultOptions False = (''{k: None}'', False)
   \<and> objectToSimple (Obj [(''k'', Obj [])]) 0 defaultOptions False
       = blockObject [(''k'', Obj [])] 0 defaultOptions False"
proof -
  have s: "list_all scalar [Null, Str ''x'']" "list_all scalar (map snd [(''k'', Null)])"
    by (simp_all add: scalar_def)
  have b: "list_ex (\<lambda>x. is_mapping x \<or> nonempty_array x) [Arr [Null]]"
    "list_ex (\<lambda>x. is_mapping x \<or> nonempty_array x) (map snd [(''k'', Obj [])])"
    by (simp_all add: is_mapping_def nonempty_array_def)
  have q: "\<not> needsQuotes ''x''" by (simp add: needsQuotes_def is_digit_def is_ws_def)
  from inline_threshold [of "[Null, Str ''x'']" 0 defaultOptions False "[(''k'', Null)]"] s q
  have 1: "objectToSimple (Arr [Null, Str ''x'']) 0 defaultOptions False = (''[None, x]'', False)"
    and 3: "objectToSimple (Obj [(''k'', Null)]) 0 defaultOptions False = (''{k: None}'', False)"
    by (simp_all add: objectToSimple_scalar escapeString_def escapeChar_def)
  note t = inline_threshold [of "[Arr [Null]]" 0 defaultOptions False "[(''k'', Obj [])]"]
  from t [THEN conjunct2, THEN conjunct1] b(1)
  have 2: "objectToSimple (Arr [Arr [Null]]) 0 defaultOptions False
       = blockArray [Arr [Null]] 0 defaultOptions False"
    by blast
  from t [THEN conjunct2, THEN conjunct2, THEN conjunct2, THEN conjunct1] b(2)
  have 4: "objectToSimple (Obj [(''k'', Obj [])]) 0 defaultOptions False
       = blockObject [(''k'', Obj [])] 0 defaultOptions False"
    by blast
  from 1 2 3 4 show ?thesis by simp
qed

text \<open>
  The claim as stated fails: a sequence, or a mapping, whose only entry is an empty
  mapping is written as a block.
\<close>

theorem inline_empty_container_counterexample:
  "fst (stringify (Arr [Obj []]) defaultOptions new_converter) = ''[]'' @ [NL] @ ''  0: {}''
   \<and> fst (stringify (Arr [Obj []]) defaultOptions new_converter) \<noteq> ''[{}]''
   \<and> fst (stringify (Obj [(''a'', Obj [])]) defaultOptions new_converter) = ''a: {}''
   \<and> fst (stringify (Obj [(''a'', Obj [])]) defaultOptions new_converter) \<noteq> ''{a: {}}''"
  unfolding stringify_text by code_simp

lemma popFrames_bottom:
  "popFrames fr below ind = (fr', below') \<Longrightarrow>
     f_type (last (fr' # below')) = f_type (last (fr # below))"
proof (induction fr below ind rule: popFrames.induct)
  case (1 fr ind)
  then show ?case by simp
next
  case (2 fr g below ind)
  show ?case
  proof (cases "f_indent fr \<ge> ind")
    case True
    with 2 have "f_type (last (fr' # below')) = f_type (last (push_child (frame_node fr) g # below))"
      by simp
    then show ?thesis by (simp add: push_child_def)
  next
    case False
    with "2.prems" show ?thesis by auto
  qed
qed

lemma lineStep_bottom:
  "lineStep fmt sty line (fr, below) = Inr (fr', below') \<Longrightarrow>
     f_type (last (fr' # below')) = f_type (last (fr # below))"
proof -
  assume a: "lineStep fmt sty line (fr, below) = Inr (fr', below')"
  obtain p b where pb: "popFrames fr below (getIndentLevel sty line) = (p, b)"
    by (cases "popFrames fr below (getIndentLevel sty line)")
  from popFrames_bottom [OF pb]
  have l: "f_type (last (p # b)) = f_type (last (fr # below))" .
  from a pb l show ?thesis
    by (auto simp: lineStep_def Let_def push_child_def split: if_splits sum.splits prod.splits)
qed

lemma lineLoop_bottom:
  "lineLoop fmt sty lines (fr, below) = Inr (fr', below') \<Longrightarrow>
     f_type (last (fr' # below')) = f_type (last (fr # below))"
proof (induction lines arbitrary: fr below)
  case Nil
  then show ?case by simp
next
  case (Cons line lines)
  from Cons.prems obtain fr1 below1 where
    s: "lineStep fmt sty line (fr, below) = Inr (fr1, below1)"
    and r: "lineLoop fmt sty lines (fr1, below1) = Inr (fr', below')"
    by (auto split: sum.splits)
  from Cons.IH [OF r] lineStep_bottom [OF s] show ?case by simp
qed

lemma closeFrames_type: "a_type (closeFrames fr below) = f_type (last (fr # below))"
  by (induction fr below rule: closeFrames.induct) (simp_all add: frame_node_def push_child_def)

lemma linesToAst_root:
  "fst (linesToAst lines fmt conv) = Inr tree \<Longrightarrow> a_type tree = TObject"
proof -
  assume a: "fst (linesToAst lines fmt conv) = Inr tree"
  define sty where "sty = (case style (detectIndentType lines conv) of Some s \<Rightarrow> s
                 | None \<Rightarrow> \<lparr>indentType = Space, indentSize = 2\<rparr>)"
  from a obtain fr below where
    l: "lineLoop fmt sty lines (root_frame, []) = Inr (fr, below)"
    and t: "tree = closeFrames fr below"
    by (auto simp: linesToAst_def Let_def sty_def split: sum.splits)
  from lineLoop_bottom [OF l] have "f_type (last (fr # below)) = TObject"
    by (simp add: root_frame_def)
  with t show ?thesis by (simp add: closeFrames_type)
qed

lemma astToObject_object:
  "a_type tree = TObject \<Longrightarrow> astToObject tree = Inr v \<Longrightarrow> is_mapping v"
  by (cases tree) (auto simp: astToObject.simps is_mapping_def split: sum.splits)

lemma parse_tree:
  "fst (parse s fmt conv) = Inr v \<Longrightarrow>
     \<exists>tree. fst (linesToAst (processMultilineStrings (removeComments s)) fmt conv) = Inr tree
            \<and> astToObject tree = Inr v"
  by (auto simp: parse_def Let_def split: prod.splits sum.splits)

lemma parse_empty: "fst (parse [] fmt conv) = Inr (Obj [])"
  by (simp add: parse_def removeComments_def removeLoop.simps processMultilineStrings_def
      linesToAst_def Let_def root_frame_def frame_node_def astToObject.simps children_of_def
      split: prod.splits)

text \<open>
  Claim C9.  Whenever \<open>parse\<close> returns a value, the value is a mapping: the tree always
  has the synthetic root, which is a mapping node.  The empty document gives the empty
  mapping.
\<close>

theorem parse_returns_mapping:
  "(fst (parse simpleStr fmt conv) = Inr v \<longrightarrow> is_mapping v)
   \<and> fst (parse [] fmt conv) = Inr (Obj [])"
proof (intro conjI impI)
  assume "fst (parse simpleStr fmt conv) = Inr v"
  from parse_tree [OF this] obtain tree where
    t: "fst (linesToAst (processMultilineStrings (removeComments simpleStr)) fmt conv) = Inr tree"
    and v: "astToObject tree = Inr v" by blast
  from linesToAst_root [OF t] v show "is_mapping v" by (rule astToObject_object)
next
  show "fst (parse [] fmt conv) = Inr (Obj [])" by (rule parse_empty)
qed

lemma parse_a1: "fst (parse ''a: 1'' Indexed new_converter) = Inr (Obj [(''a'', Num (Decimal 1 0))])"
  by code_simp

theorem parse_returns_mapping_witness:
  "fst (parse ''a: 1'' Indexed new_converter) = Inr (Obj [(''a'', Num (Decimal 1 0))])
   \<and> is_mapping (Obj [(''a'', Num (Decimal 1 0))])"
  using parse_a1 parse_returns_mapping [of "''a: 1''" Indexed new_converter "Obj [(''a'', Num (Decimal 1 0))]"]
  by simp

lemma thread_flag:
  assumes "\<And>x fl. x \<in> set xs \<Longrightarrow> snd (f x fl) = (fl \<or> P x)"
  shows "snd (thread f xs flag) = (flag \<or> list_ex P xs)"
  using assms
proof (induction xs arbitrary: flag)
  case Nil
  then show ?case by simp
next
  case (Cons x xs)
  have 1: "snd (f x flag) = (flag \<or> P x)" by (rule Cons.prems) simp
  have 2: "snd (thread f xs (snd (f x flag))) = (snd (f x flag) \<or> list_ex P xs)"
    by (rule Cons.IH) (simp add: Cons.prems)
  show ?case using 1 2 by (simp add: case_prod_beta)
qed

lemma flag_after:
  "snd (objectToSimple v level opts flag) = (flag \<or> rendersBlockMapping opts v)"
proof (induction v arbitrary: level flag)
  case (Arr xs)
  have el: "\<And>x lv fl. x \<in> set xs \<Longrightarrow>
      snd (objectToSimple x lv opts fl) = (fl \<or> rendersBlockMapping opts x)"
    by (rule Arr.IH)
  show ?case
  proof (cases "xs = [] \<or> shouldInlineArray xs")
    case True
    then have sc: "list_all scalar xs" by (auto simp: shouldInlineArray_iff)
    from True show ?thesis
      by (auto simp: objectToSimple_Arr rendersBlockMapping.simps [of opts "Arr xs"]
            inlineArray_def thread_scalars [OF sc])
  next
    case False
    show ?thesis
    proof (cases "arrayFormat opts = Values")
      case True
      have "snd (thread (valueLine level opts) xs flag)
              = (flag \<or> list_ex (rendersBlockMapping opts) xs)"
        by (rule thread_flag) (simp add: valueLine_def case_prod_beta el)
      with False True show ?thesis
        by (simp add: objectToSimple_Arr rendersBlockMapping.simps [of opts "Arr xs"]
              blockArray_def split_def)
    next
      case ix: False
      have "snd (thread (runLine level opts) (groupRuns 0 xs) flag)
              = (flag \<or> list_ex (\<lambda>run. case run of (i, j, x) \<Rightarrow> rendersBlockMapping opts x)
                          (groupRuns 0 xs))"
      proof (rule thread_flag)
        fix run fl assume r: "run \<in> set (groupRuns 0 xs)"
        obtain i j x where run: "run = (i, j, x)" by (cases run)
        with r have "x \<in> set xs" by (auto dest: groupRuns_values)
        from el [OF this] run
        show "snd (runLine level opts run fl)
                = (fl \<or> (case run of (i, j, x) \<Rightarrow> rendersBlockMapping opts x))"
          by (simp add: runLine_def case_prod_beta)
      qed
      with False ix show ?thesis
        by (simp add: objectToSimple_Arr rendersBlockMapping.simps [of opts "Arr xs"]
              blockArray_def split_def)
    qed
  qed
next
  case (Obj entries)
  show ?case
  proof (cases "shouldInlineObject entries")
    case True
    then have sc: "list_all scalar (map snd entries)" by (simp add: shouldInlineObject_iff)
    from True show ?thesis
      by (simp add: objectToSimple_Obj rendersBlockMapping.simps [of opts "Obj entries"]
            inlineObject_def thread_scalar_pairs [OF sc])
  next
    case False
    have "snd (thread (entryLine level opts) entries True)
            = (True \<or> list_ex (\<lambda>(key, x). rendersBlockMapping opts x) entries)"
    proof (rule thread_flag)
      fix e fl assume e: "e \<in> set entries"
      obtain key x where kx: "e = (key, x)" by (cases e)
      have "snd (objectToSimple x (level + 1) opts fl) = (fl \<or> rendersBlockMapping opts x)"
        by (rule Obj.IH [OF e]) (simp add: kx)
      with kx show "snd (entryLine level opts e fl)
              = (fl \<or> (case e of (key, x) \<Rightarrow> rendersBlockMapping opts x))"
        by (simp add: entryLine_def case_prod_beta)
    qed
    with False show ?thesis
      by (simp add: objectToSimple_Obj rendersBlockMapping.simps [of opts "Obj entries"]
            blockObject_def split_def)
  qed
qed (simp_all add: objectToSimple_scalar rendersBlockMapping.simps)


lemma trim_keeps_prefix:
  assumes "a \<noteq> []" "\<not> is_ws (hd a)" "\<exists>c\<in>set b. \<not> is_ws c"
  shows "trim (a @ b) = a @ rev (dropWhile is_ws (rev b))"
proof -
  from assms(1,2) have 1: "dropWhile is_ws (a @ b) = a @ b" by (cases a) simp_all
  from assms(3) have "\<exists>c\<in>set (rev b). \<not> is_ws c" by simp
  then have 2: "dropWhile is_ws (rev b @ rev a) = dropWhile is_ws (rev b) @ rev a"
    by (metis dropWhile_append1)
  show ?thesis by (simp add: trim_def 1 2)
qed

lemma entry_lines_colon:
  "entries \<noteq> [] \<Longrightarrow> CHR '':'' \<in> set (concat (fst (thread (entryLine level opts) entries fl)))"
  by (cases entries) (auto simp: entryLine_def case_prod_beta)

lemma block_marker:
  assumes "\<not> shouldInlineObject entries"
  shows "startsWith (fst (objectToSimple (Obj entries) level opts True)) (''{}'' @ [NL])"
proof -
  from assms have ne: "entries \<noteq> []" by (auto simp: shouldInlineObject_def)
  define ls where "ls = concat (fst (thread (entryLine level opts) entries True))"
  from entry_lines_colon [OF ne] have "CHR '':'' \<in> set ls" by (simp add: ls_def)
  moreover have "\<not> is_ws (CHR '':'')" by (simp add: is_ws_def)
  ultimately have ex: "\<exists>c\<in>set ls. \<not> is_ws c" by blast
  have "trim ((''{}'' @ [NL]) @ ls) = (''{}'' @ [NL]) @ rev (dropWhile is_ws (rev ls))"
    by (rule trim_keeps_prefix [OF _ _ ex]) (simp_all add: is_ws_def)
  with assms show ?thesis
    by (simp add: objectToSimple_Obj blockObject_def case_prod_beta ls_def startsWith_def)
qed

lemma entries_flag_true: "snd (thread (entryLine level opts) entries True) = True"
proof -
  have "snd (thread (entryLine level opts) entries True)
          = (True \<or> list_ex (\<lambda>e. rendersBlockMapping opts (snd e)) entries)"
    by (rule thread_flag) (simp add: entryLine_def case_prod_beta flag_after)
  then show ?thesis by simp
qed

lemma runLine_text:
  "fst (runLine level opts (i, j, x) fl) =
     getIndentString (level + 1) opts
     @ (if j - i > 1 then show_digits (int i) @ ''-'' @ show_digits (int (j - 1))
        else show_digits (int i))
     @ '': '' @ fst (objectToSimple x (level + 1) opts fl) @ [NL]"
  by (simp add: runLine_def case_prod_beta)

lemma markedText_Arr:
  "markedText opts seen level (Arr xs) =
     (if xs = [] then ''[]''
      else if shouldInlineArray xs then
        ''['' @ join '', '' (map (\<lambda>x. markedText opts seen level x) xs) @ '']''
      else if arrayFormat opts = Values then
        trim (''[]'' @ [NL] @ concat
          (map (\<lambda>(x, before).
                  getIndentString (level + 1) opts
                  @ markedText opts before (level + 1) x @ [NL])
             (zip xs (renderedBefore opts seen xs))))
      else
        trim (''[]'' @ [NL] @ concat
          (map (\<lambda>((i, j, x), before).
                  getIndentString (level + 1) opts
                  @ (if j - i > 1
                     then show_digits (int i) @ ''-'' @ show_digits (int (j - 1))
                     else show_digits (int i))
                  @ '': '' @ markedText opts before (level + 1) x @ [NL])
             (zip (groupRuns 0 xs)
                  (renderedBefore opts seen (map (\<lambda>(i, j, x). x) (groupRuns 0 xs)))))))"
  by (subst markedText.simps) simp

lemma markedText_Obj:
  "markedText opts seen level (Obj entries) =
     (if shouldInlineObject entries then
        ''{'' @ join '', '' (map (\<lambda>(key, x). key @ '': '' @ markedText opts seen level x)
                               entries) @ ''}''
      else
        trim ((if seen then ''{}'' @ [NL] else [])
              @ concat (map (\<lambda>(key, x).
                               getIndentString level opts @ key @ '': ''
                               @ markedText opts True (level + 1) x @ [NL])
                          entries)))"
  by (subst markedText.simps) simp

lemma before_Cons:
  "map (\<lambda>k. seen \<or> list_ex P (take k (x # xs))) [0 ..< length (x # xs)]
     = seen # map (\<lambda>k. (seen \<or> P x) \<or> list_ex P (take k xs)) [0 ..< length xs]"
proof -
  have "[0 ..< length (x # xs)] = 0 # map Suc [0 ..< length xs]"
    by (simp add: upt_conv_Cons map_Suc_upt del: upt_Suc)
  then show ?thesis by (simp add: comp_def del: upt_Suc)
qed

lemma thread_texts:
  assumes "\<And>x fl. x \<in> set xs \<Longrightarrow> snd (f x fl) = (fl \<or> P x)"
  shows "fst (thread f xs flag) =
           map (\<lambda>(x, before). fst (f x before))
             (zip xs (map (\<lambda>k. flag \<or> list_ex P (take k xs)) [0 ..< length xs]))"
  using assms
proof (induction xs arbitrary: flag)
  case Nil
  then show ?case by simp
next
  case (Cons x xs)
  have 1: "snd (f x flag) = (flag \<or> P x)" by (rule Cons.prems) simp
  have 2: "fst (thread f xs (flag \<or> P x)) =
           map (\<lambda>(x, before). fst (f x before))
             (zip xs (map (\<lambda>k. (flag \<or> P x) \<or> list_ex P (take k xs)) [0 ..< length xs]))"
    by (rule Cons.IH) (simp add: Cons.prems)
  have "fst (thread f (x # xs) flag) = fst (f x flag) # fst (thread f xs (flag \<or> P x))"
    using 1 by (simp add: case_prod_beta)
  with 2 show ?case by (simp only: before_Cons zip_Cons_Cons list.map prod.case)
qed

lemma thread_true:
  assumes "\<And>x. x \<in> set xs \<Longrightarrow> snd (f x True) = True"
  shows "fst (thread f xs True) = map (\<lambda>x. fst (f x True)) xs"
  using assms by (induction xs) (simp_all add: case_prod_beta)

lemma before_runs:
  "map (\<lambda>k. seen \<or> list_ex (\<lambda>run. case run of (i, j, x) \<Rightarrow> rendersBlockMapping opts x)
                         (take k runs)) [0 ..< length runs]
     = renderedBefore opts seen (map (\<lambda>(i, j, x). x) runs)"
  by (auto simp: renderedBefore_def list_ex_iff take_map split_def)

lemma text_marked:
  "fst (objectToSimple v level opts flag) = markedText opts flag level v"
proof (induction v arbitrary: level flag)
  case (Arr xs)
  have el: "\<And>x lv fl. x \<in> set xs \<Longrightarrow>
      fst (objectToSimple x lv opts fl) = markedText opts fl lv x"
    by (rule Arr.IH)
  show ?case
  proof (cases "xs = []")
    case True
    then show ?thesis by (simp add: objectToSimple_Arr markedText_Arr)
  next
    case ne: False
    show ?thesis
    proof (cases "shouldInlineArray xs")
      case True
      then have sc: "list_all scalar xs" by (simp add: shouldInlineArray_iff)
      have m: "map (\<lambda>x. fst (objectToSimple x level opts flag)) xs
             = map (\<lambda>x. markedText opts flag level x) xs"
        by (rule map_cong [OF refl]) (rule el)
      from ne True show ?thesis
        by (simp add: objectToSimple_Arr markedText_Arr inlineArray_def
              thread_scalars [OF sc] m)
    next
      case blk: False
      show ?thesis
      proof (cases "arrayFormat opts = Values")
        case True
        have "fst (thread (valueLine level opts) xs flag) =
                map (\<lambda>(x, before). fst (valueLine level opts x before))
                  (zip xs (renderedBefore opts flag xs))"
          unfolding renderedBefore_def
          by (rule thread_texts) (simp add: valueLine_def case_prod_beta flag_after)
        also have "\<dots> = map (\<lambda>(x, before). getIndentString (level + 1) opts
                      @ markedText opts before (level + 1) x @ [NL])
                  (zip xs (renderedBefore opts flag xs))"
          by (rule map_cong [OF refl])
             (auto simp: valueLine_def case_prod_beta el dest: set_zip_leftD)
        finally show ?thesis using ne blk True
          by (simp add: objectToSimple_Arr markedText_Arr blockArray_def
                case_prod_beta)
      next
        case ix: False
        let ?runs = "groupRuns 0 xs"
        have "fst (thread (runLine level opts) ?runs flag) =
                map (\<lambda>(run, before). fst (runLine level opts run before))
                  (zip ?runs (map (\<lambda>k. flag \<or> list_ex (\<lambda>run. case run of (i, j, x) \<Rightarrow>
                                  rendersBlockMapping opts x) (take k ?runs)) [0 ..< length ?runs]))"
          by (rule thread_texts) (simp add: runLine_def case_prod_beta flag_after)
        also have "\<dots> = map (\<lambda>(run, before). fst (runLine level opts run before))
                  (zip ?runs (renderedBefore opts flag (map (\<lambda>(i, j, x). x) ?runs)))"
          by (simp only: before_runs)
        also have "\<dots> = map (\<lambda>((i, j, x), before).
                      getIndentString (level + 1) opts
                      @ (if j - i > 1
                         then show_digits (int i) @ ''-'' @ show_digits (int (j - 1))
                         else show_digits (int i))
                      @ '': '' @ markedText opts before (level + 1) x @ [NL])
                  (zip ?runs (renderedBefore opts flag (map (\<lambda>(i, j, x). x) ?runs)))"
          by (rule map_cong [OF refl])
             (auto simp: runLine_text el dest!: zip_runs_values)
        finally show ?thesis using ne blk ix
          by (simp add: objectToSimple_Arr markedText_Arr blockArray_def
                case_prod_beta)
      qed
    qed
  qed
next
  case (Obj entries)
  have el: "\<And>key x lv fl. (key, x) \<in> set entries \<Longrightarrow>
      fst (objectToSimple x lv opts fl) = markedText opts fl lv x"
  proof -
    fix key x lv fl assume m: "(key, x) \<in> set entries"
    show "fst (objectToSimple x lv opts fl) = markedText opts fl lv x"
      by (rule Obj.IH [OF m]) simp
  qed
  show ?case
  proof (cases "shouldInlineObject entries")
    case True
    then have sc: "list_all scalar (map snd entries)" by (simp add: shouldInlineObject_iff)
    have "map (\<lambda>(key, x). key @ '': '' @ fst (objectToSimple x level opts flag)) entries
           = map (\<lambda>(key, x). key @ '': '' @ markedText opts flag level x) entries"
      by (rule map_cong [OF refl]) (auto simp: el)
    then have "fst (inlineObject entries level opts flag)
           = ''{'' @ join '', '' (map (\<lambda>(key, x). key @ '': '' @ markedText opts flag level x)
                                    entries) @ ''}''"
      by (simp only: inlineObject_def thread_scalar_pairs [OF sc] prod.case fst_conv)
    with True show ?thesis
      by (simp only: objectToSimple_Obj markedText_Obj if_True)
  next
    case False
    have "fst (thread (entryLine level opts) entries True)
            = map (\<lambda>e. fst (entryLine level opts e True)) entries"
      by (rule thread_true) (simp add: entryLine_def case_prod_beta flag_after)
    also have "\<dots> = map (\<lambda>(key, x). getIndentString level opts @ key @ '': ''
                                   @ markedText opts True (level + 1) x @ [NL]) entries"
      by (rule map_cong [OF refl]) (auto simp: entryLine_def case_prod_beta el)
    finally show ?thesis using False
      by (simp add: objectToSimple_Obj markedText_Obj blockObject_def
            case_prod_beta)
  qed
qed (simp_all add: objectToSimple_scalar markedText.simps)

text \<open>
  Claim C7.  \<open>stringify\<close> starts with the flag false, and the text it returns is the
  text of the specification: every mapping written in block form is preceded by the
  marker line \<open>{}\<close>, except the first one rendered in the call.  The flag is what tells
  the two apart: after rendering a value it is set exactly when it was set before or a
  block mapping has been rendered, a block mapping begins with the marker line exactly
  when the flag is set on reaching it, and it sets the flag before its entries are
  written.  A sequence of two block mappings is written with the marker line before
  the second one only.
\<close>

theorem one_shot_marker:
  "fst (stringify v opts conv) = markedText opts False 0 v
   \<and> fst (objectToSimple v level opts flag) = markedText opts flag level v
   \<and> fst (stringify v opts conv) = fst (objectToSimple v 0 opts False)
   \<and> outerParsed (snd (stringify v opts conv)) = rendersBlockMapping opts v
   \<and> snd (objectToSimple v level opts flag) = (flag \<or> rendersBlockMapping opts v)
   \<and> (\<not> shouldInlineObject entries \<longrightarrow>
        objectToSimple (Obj entries) level opts flag =
          (trim ((if flag then ''{}'' @ [NL] else [])
                 @ concat (fst (thread (entryLine level opts) entries True))), True)
        \<and> startsWith (fst (objectToSimple (Obj entries) level opts True)) (''{}'' @ [NL]))
   \<and> fst (stringify (Arr [Obj [(''x'', Obj [])], Obj [(''y'', Obj [])]]) defaultOptions conv) =
       ''[]'' @ [NL] @ ''  0: x: {}'' @ [NL] @ ''  1: {}'' @ [NL] @ ''  y: {}''"
proof (intro conjI impI)
  show "fst (stringify v opts conv) = markedText opts False 0 v"
    by (simp add: stringify_text text_marked)
  show "fst (objectToSimple v level opts flag) = markedText opts flag level v"
    by (rule text_marked)
  show "fst (stringify v opts conv) = fst (objectToSimple v 0 opts False)"
    by (rule stringify_text)
  show "outerParsed (snd (stringify v opts conv)) = rendersBlockMapping opts v"
    using flag_after [of v 0 opts False] by (simp add: stringify_def case_prod_beta)
  show "snd (objectToSimple v level opts flag) = (flag \<or> rendersBlockMapping opts v)"
    by (rule flag_after)
  show "fst (stringify (Arr [Obj [(''x'', Obj [])], Obj [(''y'', Obj [])]]) defaultOptions conv) =
       ''[]'' @ [NL] @ ''  0: x: {}'' @ [NL] @ ''  1: {}'' @ [NL] @ ''  y: {}''"
    unfolding stringify_text by code_simp
next
  assume b: "\<not> shouldInlineObject entries"
  then show "objectToSimple (Obj entries) level opts flag =
          (trim ((if flag then ''{}'' @ [NL] else [])
                 @ concat (fst (thread (entryLine level opts) entries True))), True)"
    using entries_flag_true [of level opts entries]
    by (simp add: objectToSimple_Obj blockObject_def case_prod_beta)
  from b show "startsWith (fst (objectToSimple (Obj entries) level opts True)) (''{}'' @ [NL])"
    by (rule block_marker)
qed

lemma marker_example:
  "markedText defaultOptions False 0
     (Obj [(''a'', Obj [(''x'', Obj [])]), (''b'', Obj [(''y'', Obj [])])]) =
     ''a: {}'' @ [NL] @ ''  x: {}'' @ [NL] @ ''b: {}'' @ [NL] @ ''  y: {}''"
  by code_simp

lemma marker_sequence_example:
  "markedText defaultOptions False 0 (Arr [Obj [(''x'', Obj [])], Obj [(''y'', Obj [])]]) =
     ''[]'' @ [NL] @ ''  0: x: {}'' @ [NL] @ ''  1: {}'' @ [NL] @ ''  y: {}''"
  by code_simp

theorem one_shot_marker_witness:
  "fst (stringify (Obj [(''a'', Obj [(''x'', Obj [])]), (''b'', Obj [(''y'', Obj [])])])
          defaultOptions new_converter) =
     ''a: {}'' @ [NL] @ ''  x: {}'' @ [NL] @ ''b: {}'' @ [NL] @ ''  y: {}''
   \<and> fst (stringify (Arr [Obj [(''x'', Obj [])], Obj [(''y'', Obj [])]])
          defaultOptions new_converter) =
     ''[]'' @ [NL] @ ''  0: x: {}'' @ [NL] @ ''  1: {}'' @ [NL] @ ''  y: {}''
   \<and> snd (objectToSimple (Obj [(''x'', Obj [])]) 1 defaultOptions False) = True
   \<and> startsWith (fst (objectToSimple (Obj [(''x'', Obj [])]) 1 defaultOptions True))
        (''{}'' @ [NL])"
proof -
  have b: "\<not> shouldInlineObject [(''x'', Obj [])]"
    by (simp add: shouldInlineObject_def is_object_def)
  note t = one_shot_marker [of "Obj [(''a'', Obj [(''x'', Obj [])]), (''b'', Obj [(''y'', Obj [])])]"
      defaultOptions new_converter 1 False "[(''x'', Obj [])]"]
  note s = one_shot_marker [of "Arr [Obj [(''x'', Obj [])], Obj [(''y'', Obj [])]]"
      defaultOptions new_converter 1 False "[(''x'', Obj [])]"]
  note u = one_shot_marker [of "Obj [(''x'', Obj [])]" defaultOptions new_converter 1 False
      "[(''x'', Obj [])]"]
  from t [THEN conjunct1] marker_example
  have 1: "fst (stringify (Obj [(''a'', Obj [(''x'', Obj [])]), (''b'', Obj [(''y'', Obj [])])])
          defaultOptions new_converter) =
     ''a: {}'' @ [NL] @ ''  x: {}'' @ [NL] @ ''b: {}'' @ [NL] @ ''  y: {}''"
    by simp
  from s [THEN conjunct1] marker_sequence_example
  have 2: "fst (stringify (Arr [Obj [(''x'', Obj [])], Obj [(''y'', Obj [])]])
          defaultOptions new_converter) =
     ''[]'' @ [NL] @ ''  0: x: {}'' @ [NL] @ ''  1: {}'' @ [NL] @ ''  y: {}''"
    by simp
  from u [THEN conjunct2, THEN conjunct2, THEN conjunct2, THEN conjunct2, THEN conjunct2, THEN conjunct1] b
  have 3: "snd (objectToSimple (Obj [(''x'', Obj [])]) 1 defaultOptions False) = True"
    and 4: "startsWith (fst (objectToSimple (Obj [(''x'', Obj [])]) 1 defaultOptions True))
        (''{}'' @ [NL])"
    by simp_all
  from 1 2 3 4 show ?thesis by (intro conjI)
qed

lemma detect_found:
  "indentedLine lines = Some line \<Longrightarrow> style (detectIndentType lines conv) = Some (styleOfLine line)"
  by (simp add: detectIndentType_def indentedLine_def styleOfLine_def Let_def)

lemma detect_none:
  "indentedLine lines = None \<Longrightarrow>
     style (detectIndentType lines conv) =
       (case style conv of None \<Rightarrow> Some \<lparr>indentType = Space, indentSize = 2\<rparr> | Some s \<Rightarrow> Some s)"
  by (simp add: detectIndentType_def indentedLine_def split: option.splits)

lemma level_unindented: "takeWhile is_ws line = [] \<Longrightarrow> getIndentLevel sty line = 0"
  by (cases line) (auto simp: getIndentLevel_def is_ws_def split: if_splits)

lemma lineStep_style:
  "comment_line line \<or> takeWhile is_ws line = [] \<Longrightarrow>
     lineStep fmt sty line stack = lineStep fmt sty' line stack"
proof (cases "comment_line line")
  case True
  then show ?thesis by (auto simp: lineStep_def comment_line_def Let_def)
next
  case False
  assume "comment_line line \<or> takeWhile is_ws line = []"
  with False have "takeWhile is_ws line = []" by simp
  then have "getIndentLevel sty line = getIndentLevel sty' line"
    by (simp add: level_unindented)
  then show ?thesis by (simp add: lineStep_def)
qed

lemma lineLoop_style:
  "\<forall>line\<in>set lines. comment_line line \<or> takeWhile is_ws line = [] \<Longrightarrow>
     lineLoop fmt sty lines stack = lineLoop fmt sty' lines stack"
proof (induction lines arbitrary: stack)
  case Nil
  then show ?case by simp
next
  case (Cons line lines)
  then have 1: "lineStep fmt sty line stack = lineStep fmt sty' line stack"
    by (simp add: lineStep_style)
  from Cons have 2: "\<And>st. lineLoop fmt sty lines st = lineLoop fmt sty' lines st" by simp
  show ?case by (simp add: 1 2 split: sum.splits)
qed

lemma linesToAst_fields: "fst (linesToAst lines fmt conv) = fst (linesToAst lines fmt conv')"
proof (cases "indentedLine lines")
  case None
  then have "\<forall>line\<in>set lines. comment_line line \<or> takeWhile is_ws line = []"
    by (auto simp: indentedLine_def find_None_iff)
  from lineLoop_style [OF this]
  have "lineLoop fmt sty lines (root_frame, []) = lineLoop fmt sty' lines (root_frame, [])"
    for sty sty' .
  then show ?thesis
    unfolding linesToAst_def Let_def fst_conv by (rule arg_cong)
next
  case (Some line)
  from detect_found [OF Some] show ?thesis
    by (simp add: linesToAst_def Let_def)
qed

lemma parse_fields: "fst (parse s fmt conv) = fst (parse s fmt conv')"
proof -
  have "fst (parse s fmt conv)
          = (case fst (linesToAst (processMultilineStrings (removeComments s)) fmt conv) of
               Inl e \<Rightarrow> Inl e | Inr tree \<Rightarrow> astToObject tree)" for conv
    by (simp add: parse_def Let_def split: prod.splits sum.splits)
  then show ?thesis
    using linesToAst_fields [of "processMultilineStrings (removeComments s)" fmt conv conv']
    by simp
qed

lemma parse_style:
  "style (snd (parse s fmt conv)) =
     style (detectIndentType (processMultilineStrings (removeComments s)) conv)"
  by (simp add: parse_def linesToAst_def Let_def split: sum.splits prod.splits)


text \<open>
  Claim C8, as amended.  The value or error \<open>parse\<close> returns and the text \<open>stringify\<close>
  returns do not depend on the converter's fields at the start of the call.
  \<open>stringify\<close> clears the one-shot flag first.  \<open>parse\<close> sets the indentation style
  from the first indented line of the document; a document without an indented line
  keeps the style the fields hold, and gets space with size 2 only when they hold none.
\<close>

theorem call_scoped_results:
  "fst (parse s fmt conv) = fst (parse s fmt conv')
   \<and> fst (stringify v opts conv) = fst (stringify v opts conv')
   \<and> fst (stringify v opts conv) = fst (objectToSimple v 0 opts False)
   \<and> (indentedLine (processMultilineStrings (removeComments s)) = Some line \<longrightarrow>
        style (snd (parse s fmt conv)) = Some (styleOfLine line))
   \<and> (indentedLine (processMultilineStrings (removeComments s)) = None \<longrightarrow>
        style (snd (parse s fmt conv)) =
          (case style conv of
             None \<Rightarrow> Some \<lparr>indentType = Space, indentSize = 2\<rparr>
           | Some st \<Rightarrow> Some st))"
proof (intro conjI impI)
  show "fst (parse s fmt conv) = fst (parse s fmt conv')" by (rule parse_fields)
  show "fst (stringify v opts conv) = fst (stringify v opts conv')"
    by (simp add: stringify_text)
  show "fst (stringify v opts conv) = fst (objectToSimple v 0 opts False)"
    by (rule stringify_text)
next
  assume "indentedLine (processMultilineStrings (removeComments s)) = Some line"
  then show "style (snd (parse s fmt conv)) = Some (styleOfLine line)"
    by (simp add: parse_style detect_found)
next
  assume "indentedLine (processMultilineStrings (removeComments s)) = None"
  then show "style (snd (parse s fmt conv)) =
          (case style conv of
             None \<Rightarrow> Some \<lparr>indentType = Space, indentSize = 2\<rparr>
           | Some st \<Rightarrow> Some st)"
    by (simp add: parse_style detect_none)
qed

lemma tab_document_lines:
  "indentedLine (processMultilineStrings (removeComments (''a: {}'' @ [NL, TAB] @ ''b: 1'')))
     = Some ([TAB] @ ''b: 1'')"
  by code_simp

lemma flat_document_lines:
  "indentedLine (processMultilineStrings (removeComments ''a: 1'')) = None"
  by code_simp

theorem call_scoped_results_witness:
  "style (snd (parse (''a: {}'' @ [NL, TAB] @ ''b: 1'') Indexed new_converter))
     = Some \<lparr>indentType = Tab, indentSize = 1\<rparr>
   \<and> style (snd (parse ''a: 1'' Indexed new_converter))
     = Some \<lparr>indentType = Space, indentSize = 2\<rparr>
   \<and> fst (parse ''a: 1'' Indexed
          (snd (parse (''a: {}'' @ [NL, TAB] @ ''b: 1'') Indexed new_converter)))
     = fst (parse ''a: 1'' Indexed new_converter)"
proof -
  note t = call_scoped_results [of "''a: {}'' @ [NL, TAB] @ ''b: 1''" Indexed new_converter
      new_converter Null defaultOptions "[TAB] @ ''b: 1''"]
  note u = call_scoped_results [of "''a: 1''" Indexed new_converter
      "snd (parse (''a: {}'' @ [NL, TAB] @ ''b: 1'') Indexed new_converter)" Null defaultOptions "[]"]
  have st: "styleOfLine ([TAB] @ ''b: 1'') = \<lparr>indentType = Tab, indentSize = 1\<rparr>"
    by (simp add: styleOfLine_def is_ws_def)
  from t tab_document_lines st
  have 1: "style (snd (parse (''a: {}'' @ [NL, TAB] @ ''b: 1'') Indexed new_converter))
     = Some \<lparr>indentType = Tab, indentSize = 1\<rparr>" by simp
  from u flat_document_lines
  have 2: "style (snd (parse ''a: 1'' Indexed new_converter))
     = Some \<lparr>indentType = Space, indentSize = 2\<rparr>" by (simp add: new_converter_def)
  from u have 3: "fst (parse ''a: 1'' Indexed
          (snd (parse (''a: {}'' @ [NL, TAB] @ ''b: 1'') Indexed new_converter)))
     = fst (parse ''a: 1'' Indexed new_converter)" by simp
  from 1 2 3 show ?thesis by (intro conjI)
qed

text \<open>
  The claim as stated fails: the style is not reset at the start of \<open>parse\<close>.  After a
  document indented with a tab, a document without an indented line is parsed with the
  fields holding the tab style, not space with size 2.
\<close>

theorem stale_indent_style_counterexample:
  "indentedLine (processMultilineStrings (removeComments ''a: 1'')) = None
   \<and> style (snd (parse ''a: 1'' Indexed
         (snd (parse (''a: {}'' @ [NL, TAB] @ ''b: 1'') Indexed new_converter))))
       = Some \<lparr>indentType = Tab, indentSize = 1\<rparr>
   \<and> style (snd (parse ''a: 1'' Indexed
         (snd (parse (''a: {}'' @ [NL, TAB] @ ''b: 1'') Indexed new_converter))))
       \<noteq> Some \<lparr>indentType = Space, indentSize = 2\<rparr>"
  by code_simp

text \<open>
  The runs of the indexed form.  They cover the indices of the sequence in order; every
  run starts at an element, holds only elements that \<open>_isEqual\<close> finds equal to that
  one, and ends at the first element that it does not find equal (or at the end of the
  sequence).  The block has one line for each run.
\<close>

lemma groupRuns_run:
  "(i, j, x) \<in> set (groupRuns k xs) \<Longrightarrow>
     k \<le> i \<and> i < j \<and> j \<le> k + length xs \<and> x = xs ! (i - k)
     \<and> (\<forall>m. i < m \<and> m < j \<longrightarrow> isEqual x (xs ! (m - k)))
     \<and> (j < k + length xs \<longrightarrow> \<not> isEqual x (xs ! (j - k)))"
proof (induction k xs arbitrary: i j x rule: groupRuns.induct)
  case (1 k)
  then show ?case by simp
next
  case (2 k y ys)
  let ?n = "length (takeWhile (isEqual y) ys)"
  let ?j = "k + 1 + ?n"
  let ?rest = "dropWhile (isEqual y) ys"
  have rest: "?rest = drop ?n ys" by (simp add: dropWhile_eq_drop)
  have nle: "?n \<le> length ys" by (simp add: length_takeWhile_le)
  from "2.prems" have cases: "(i, j, x) = (k, ?j, y) \<or> (i, j, x) \<in> set (groupRuns ?j ?rest)"
    by (simp add: Let_def)
  then show ?case
  proof
    assume "(i, j, x) = (k, ?j, y)"
    then have e: "i = k" "j = ?j" "x = y" by simp_all
    have run: "isEqual y (ys ! m)" if "m < ?n" for m
    proof -
      from that have "ys ! m = takeWhile (isEqual y) ys ! m"
        by (simp add: takeWhile_nth)
      moreover have "takeWhile (isEqual y) ys ! m \<in> set (takeWhile (isEqual y) ys)"
        using that by simp
      ultimately show ?thesis by (auto dest: set_takeWhileD)
    qed
    have stop: "\<not> isEqual y (ys ! ?n)" if "?n < length ys"
      using that by (rule nth_length_takeWhile)
    show ?thesis
    proof (intro conjI allI impI)
      fix m assume "i < m \<and> m < j"
      with e have "m - k - 1 < ?n" "m - k = Suc (m - k - 1)" by auto
      with run [of "m - k - 1"] e show "isEqual x ((y # ys) ! (m - k))" by simp
    next
      assume "j < k + length (y # ys)"
      with e have "?n < length ys" by simp
      from stop [OF this] e show "\<not> isEqual x ((y # ys) ! (j - k))" by simp
    qed (use e nle in simp_all)
  next
    assume mem: "(i, j, x) \<in> set (groupRuns ?j ?rest)"
    have ih: "?j \<le> i \<and> i < j \<and> j \<le> ?j + length ?rest \<and> x = ?rest ! (i - ?j)
       \<and> (\<forall>m. i < m \<and> m < j \<longrightarrow> isEqual x (?rest ! (m - ?j)))
       \<and> (j < ?j + length ?rest \<longrightarrow> \<not> isEqual x (?rest ! (j - ?j)))"
      by (rule "2.IH" [OF refl mem])
    have lr: "length ?rest = length ys - ?n" by (simp add: rest)
    have idx: "?rest ! (m - ?j) = (y # ys) ! (m - k)" if "?j \<le> m" "m < ?j + length ?rest" for m
    proof -
      from that nle lr have "?n + (m - ?j) < length ys" by simp
      then have "drop ?n ys ! (m - ?j) = ys ! (?n + (m - ?j))" by simp
      moreover from that have "m - k = Suc (?n + (m - ?j))" by simp
      ultimately show ?thesis using rest by simp
    qed
    from ih have b: "?j \<le> i" "i < j" "j \<le> ?j + length ?rest" by blast+
    from ih have xi: "x = ?rest ! (i - ?j)" by blast
    from ih have runs: "\<And>m. i < m \<and> m < j \<Longrightarrow> isEqual x (?rest ! (m - ?j))" by blast
    from ih have stop: "j < ?j + length ?rest \<Longrightarrow> \<not> isEqual x (?rest ! (j - ?j))" by blast
    show ?thesis
    proof (intro conjI allI impI)
      show "k \<le> i" using b by simp
      show "i < j" by (rule b)
      show "j \<le> k + length (y # ys)" using b nle lr by simp
      show "x = (y # ys) ! (i - k)" using xi idx [of i] b by simp
    next
      fix m assume m: "i < m \<and> m < j"
      from runs [OF m] idx [of m] m b show "isEqual x ((y # ys) ! (m - k))" by simp
    next
      assume "j < k + length (y # ys)"
      with nle lr have lt: "j < ?j + length ?rest" by simp
      from stop [OF lt] idx [of j] lt b show "\<not> isEqual x ((y # ys) ! (j - k))" by simp
    qed
  qed
qed

lemma groupRuns_cover:
  "concat (map (\<lambda>(i, j, x). [i ..< j]) (groupRuns k xs)) = [k ..< k + length xs]"
proof (induction k xs rule: groupRuns.induct)
  case (1 k)
  then show ?case by simp
next
  case (2 k y ys)
  define n where "n = length (takeWhile (isEqual y) ys)"
  have len: "length (dropWhile (isEqual y) ys) = length ys - n"
    by (simp add: n_def dropWhile_eq_drop)
  have nle: "n \<le> length ys" by (simp add: n_def length_takeWhile_le)
  have "concat (map (\<lambda>(i, j, x). [i ..< j]) (groupRuns k (y # ys)))
          = [k ..< k + 1 + n] @ [k + 1 + n ..< k + 1 + n + (length ys - n)]"
    using "2.IH" [of "k + 1 + n"] by (simp add: Let_def n_def [symmetric] len)
  also have "\<dots> = [k ..< k + 1 + n + (length ys - n)]"
    by (rule upt_add_eq_append [symmetric]) simp
  finally show ?case using nle by simp
qed

lemma isEqual_Undefined: "isEqual x Undefined = (x = Undefined)"
  by (cases x) simp_all

lemma wellFormed_entry: "wellFormed (Obj b) \<Longrightarrow> (key, x) \<in> set b \<Longrightarrow> wellFormed x"
  by (auto simp: list_all_iff)

lemma plainKeys_entry: "plainKeys (Obj b) \<Longrightarrow> (key, x) \<in> set b \<Longrightarrow> plainKeys x \<and> key \<noteq> ''__proto__''"
  by (force simp: list_all_iff)

lemma same_keys:
  assumes "distinct (map fst a)" "distinct (map fst b)" "set (map fst a) \<subseteq> set (map fst b)"
  shows "(length a = length b) = (set (map fst a) = set (map fst b))"
proof
  assume l: "length a = length b"
  have "card (set (map fst a)) = length a" "card (set (map fst b)) = length b"
    using assms(1,2) distinct_card [of "map fst a"] distinct_card [of "map fst b"] by simp_all
  with l have "card (set (map fst a)) = card (set (map fst b))" by simp
  with assms(3) show "set (map fst a) = set (map fst b)"
    by (intro card_subset_eq) simp_all
next
  assume "set (map fst a) = set (map fst b)"
  then have "card (set (map fst a)) = card (set (map fst b))" by simp
  with assms(1,2) distinct_card [of "map fst a"] distinct_card [of "map fst b"]
  show "length a = length b" by simp
qed

text \<open>
  Away from the key \<open>__proto__\<close>, \<open>_isEqual\<close> is the structural equality of the
  specification: on values of the data model of which the first has no mapping with a
  key \<open>__proto__\<close>.
\<close>

lemma isEqual_deepEqual:
  "wellFormed a \<Longrightarrow> wellFormed b \<Longrightarrow> plainKeys a \<Longrightarrow> isEqual a b = deepEqual a b"
proof (induction a arbitrary: b)
  case (Arr xs)
  show ?case
  proof (cases b)
    case (Arr ys)
    have "isEqual (xs ! i) (ys ! i) = deepEqual (xs ! i) (ys ! i)"
      if "i < length xs" "i < length ys" for i
    proof (rule Arr.IH)
      show "xs ! i \<in> set xs" using that by simp
      show "wellFormed (xs ! i)" using Arr.prems(1) that by (simp add: list_all_length)
      show "wellFormed (ys ! i)" using Arr.prems(2) \<open>b = Arr ys\<close> that by (simp add: list_all_length)
      show "plainKeys (xs ! i)" using Arr.prems(3) that by (simp add: list_all_length)
    qed
    then have "list_all2 isEqual xs ys = list_all2 deepEqual xs ys"
      by (auto simp: list_all2_conv_all_nth)
    with Arr show ?thesis by (auto dest: list_all2_lengthD)
  qed simp_all
next
  case (Obj ea)
  show ?case
  proof (cases b)
    case b: (Obj eb)
    let ?code = "\<lambda>(key, x). case obj_get eb key of
                     Data y \<Rightarrow> isEqual x y
                   | ObjectPrototype \<Rightarrow> isEqualObjectPrototype x
                   | BuiltinFunction \<Rightarrow> False"
    let ?spec = "\<lambda>(key, x). case map_of eb key of Some y \<Rightarrow> deepEqual x y | None \<Rightarrow> False"
    have da: "distinct (map fst ea)" and db: "distinct (map fst eb)"
      using Obj.prems b by simp_all
    have entry: "?code (key, x) = ?spec (key, x)" if m: "(key, x) \<in> set ea" for key x
    proof (cases "map_of eb key")
      case None
      from plainKeys_entry [OF Obj.prems(3) m] have "key \<noteq> ''__proto__''" by simp
      moreover have "x \<noteq> Undefined" using wellFormed_entry [OF Obj.prems(1) m] by auto
      ultimately show ?thesis using None by (simp add: obj_get_def isEqual_Undefined)
    next
      case (Some y)
      then have "(key, y) \<in> set eb" by (rule map_of_SomeD)
      with Obj.prems(2) b have "wellFormed y" by (auto intro: wellFormed_entry)
      moreover have "wellFormed x" using Obj.prems(1) m by (rule wellFormed_entry)
      moreover have "plainKeys x" using plainKeys_entry [OF Obj.prems(3) m] by simp
      ultimately have "isEqual x y = deepEqual x y"
        using Obj.IH [of "(key, x)" x y] m by simp
      with Some show ?thesis by (simp add: obj_get_def)
    qed
    then have all: "list_all ?code ea = list_all ?spec ea"
      by (auto simp: list_all_iff)
    have sub: "set (map fst ea) \<subseteq> set (map fst eb)" if h: "list_all ?spec ea"
    proof
      fix key assume "key \<in> set (map fst ea)"
      then obtain x where m: "(key, x) \<in> set ea" by auto
      with h have "?spec (key, x)" by (auto simp: list_all_iff)
      then have "map_of eb key \<noteq> None" by (auto split: option.splits)
      then show "key \<in> set (map fst eb)" by (simp add: map_of_eq_None_iff)
    qed
    show ?thesis
    proof (cases "list_all ?spec ea")
      case True
      from same_keys [OF da db sub [OF True]] True all b show ?thesis by simp
    next
      case False
      with all b show ?thesis by simp
    qed
  qed simp_all
qed (cases b; simp)+

lemma indexed_block:
  "xs \<noteq> [] \<Longrightarrow> \<not> shouldInlineArray xs \<Longrightarrow> arrayFormat opts = Indexed \<Longrightarrow>
     fst (objectToSimple (Arr xs) level opts flag) =
       trim (''[]'' @ [NL] @ concat (fst (thread (runLine level opts) (groupRuns 0 xs) flag)))"
  by (simp add: objectToSimple_Arr blockArray_def case_prod_beta)

text \<open>
  Claim C4.  The sequence \<open>[1,1,1,2,3,3,4,4,4,4,5]\<close> is written with the lines \<open>0-2: 1\<close>,
  \<open>3: 2\<close>, \<open>4-5: 3\<close>, \<open>6-9: 4\<close>, \<open>10: 5\<close>, as the claim says.  The runs are the runs of
  \<open>_isEqual\<close>, and that is not structural equality: it reads \<open>b[key]\<close> without asking
  whether the key is the second mapping's own.  A mapping whose only entry has the key
  \<open>__proto__\<close> and an empty mapping as value is found equal to the mapping \<open>{y: 1}\<close>, the
  two have different key sets, and the sequence of the two is written as the single
  run \<open>0-1\<close> of the first: the second element is not in the text.
\<close>

theorem run_compression_failure:
  "fst (stringify
     (Arr [Num (Decimal 1 0), Num (Decimal 1 0), Num (Decimal 1 0), Num (Decimal 2 0),
           Num (Decimal 3 0), Num (Decimal 3 0), Num (Decimal 4 0), Num (Decimal 4 0),
           Num (Decimal 4 0), Num (Decimal 4 0), Num (Decimal 5 0)])
     defaultOptions new_converter) =
     ''[]'' @ [NL] @ ''  0-2: 1'' @ [NL] @ ''  3: 2'' @ [NL] @ ''  4-5: 3'' @ [NL]
     @ ''  6-9: 4'' @ [NL] @ ''  10: 5''
   \<and> wellFormed (Obj [(''__proto__'', Obj [])])
   \<and> wellFormed (Obj [(''y'', Num (Decimal 1 0))])
   \<and> \<not> deepEqual (Obj [(''__proto__'', Obj [])]) (Obj [(''y'', Num (Decimal 1 0))])
   \<and> isEqual (Obj [(''__proto__'', Obj [])]) (Obj [(''y'', Num (Decimal 1 0))])
   \<and> groupRuns 0 [Obj [(''__proto__'', Obj [])], Obj [(''y'', Num (Decimal 1 0))]]
       = [(0, 2, Obj [(''__proto__'', Obj [])])]
   \<and> fst (stringify (Arr [Obj [(''__proto__'', Obj [])], Obj [(''y'', Num (Decimal 1 0))]])
            defaultOptions new_converter) =
       ''[]'' @ [NL] @ ''  0-1: __proto__: {}''"
  by code_simp

lemma indexOf_None: "(indexOf s c = None) = (c \<notin> set s)"
  by (induction s) auto

lemma set_dropWhile_keep: "\<not> P c \<Longrightarrow> (c \<in> set (dropWhile P xs)) = (c \<in> set xs)"
  by (induction xs) auto

lemma set_trim_keep: "\<not> is_ws c \<Longrightarrow> (c \<in> set (trim s)) = (c \<in> set s)"
  by (simp add: trim_def set_dropWhile_keep)

lemma colon_trim: "(CHR '':'' \<in> set (trim line)) = (CHR '':'' \<in> set line)"
  by (rule set_trim_keep) (simp add: is_ws_def)

lemma kinds_pop:
  "kinds_of (popFrames fr below lv)
     = popKinds (f_type fr, f_indent fr) (map (\<lambda>f. (f_type f, f_indent f)) below) lv"
  by (induction fr below lv rule: popFrames.induct) (simp_all add: kinds_of_def push_child_def)

lemma lineStep_invalid:
  assumes "invalidLine fmt sty (kinds_of stack) line"
  shows "lineStep fmt sty line stack = Inl (InvalidLine (''Invalid line: '' @ trim line))"
proof -
  obtain p b where pb: "popFrames (fst stack) (snd stack) (getIndentLevel sty line) = (p, b)"
    by (cases "popFrames (fst stack) (snd stack) (getIndentLevel sty line)")
  have "popKinds (fst (kinds_of stack)) (snd (kinds_of stack)) (getIndentLevel sty line)
          = kinds_of (p, b)"
    using kinds_pop [of "fst stack" "snd stack" "getIndentLevel sty line", symmetric] pb
    by (simp add: kinds_of_def)
  then have pk: "parentKind sty (kinds_of stack) line = f_type p"
    by (simp add: parentKind_def kinds_of_def)
  from assms have nc: "\<not> comment_line line" and col: "CHR '':'' \<notin> set line"
    and ex: "\<not> (fmt = Values \<and> f_type p = TArray)"
    by (simp_all add: invalidLine_def pk)
  from col have "indexOf (trim line) (CHR '':'') = None"
    by (simp add: indexOf_None colon_trim)
  then have "parseKeyValue (trim line) = Inl (InvalidLine (''Invalid line: '' @ trim line))"
    by (simp add: parseKeyValue_def)
  with nc ex pb show ?thesis
    by (auto simp: lineStep_def comment_line_def Let_def)
qed

lemma lineStep_valid:
  assumes "\<not> invalidLine fmt sty (kinds_of stack) line"
  shows "\<exists>stack'. lineStep fmt sty line stack = Inr stack'
            \<and> kinds_of stack' = kindStep fmt sty line (kinds_of stack)"
proof (cases "comment_line line")
  case True
  then show ?thesis
    by (cases stack) (auto simp: lineStep_def kindStep_def comment_line_def Let_def)
next
  case nc: False
  obtain p b where pb: "popFrames (fst stack) (snd stack) (getIndentLevel sty line) = (p, b)"
    by (cases "popFrames (fst stack) (snd stack) (getIndentLevel sty line)")
  have pk: "popKinds (fst (kinds_of stack)) (snd (kinds_of stack)) (getIndentLevel sty line)
              = kinds_of (p, b)"
    using kinds_pop [of "fst stack" "snd stack" "getIndentLevel sty line", symmetric] pb
    by (simp add: kinds_of_def)
  have nt: "trim line \<noteq> []" "\<not> startsWith (trim line) ''//''" "\<not> startsWith (trim line) ''#''"
    using nc by (simp_all add: comment_line_def Let_def)
  show ?thesis
  proof (cases "fmt = Values \<and> f_type p = TArray \<and> CHR '':'' \<notin> set line")
    case True
    with nc nt pb pk show ?thesis
      by (simp add: lineStep_def kindStep_def Let_def kinds_of_def push_child_def)
  next
    case False
    have ptype: "parentKind sty (kinds_of stack) line = f_type p"
      using pk by (simp add: parentKind_def kinds_of_def)
    from False assms nc have col: "CHR '':'' \<in> set line"
      by (auto simp: invalidLine_def ptype)
    then obtain ci where ci: "indexOf (trim line) (CHR '':'') = Some ci"
      using indexOf_None [of "trim line" "CHR '':''"] colon_trim [of line] by auto
    obtain ty v where cl: "classify (trim (substring (trim line) (ci + 1) (length (trim line)))) = (ty, v)"
      by (cases "classify (trim (substring (trim line) (ci + 1) (length (trim line))))")
    from ci cl have pkv: "parseKeyValue (trim line) = Inr (trim (substring (trim line) 0 ci), ty, v)"
      by (simp add: parseKeyValue_def Let_def)
    from False nc nt pb pk ci cl pkv show ?thesis
      by (auto simp: lineStep_def kindStep_def Let_def kinds_of_def push_child_def)
  qed
qed



lemma lineLoop_errors: "lineLoop fmt sty lines stack = Inl e \<Longrightarrow> \<exists>msg. e = InvalidLine msg"
proof (induction lines arbitrary: stack)
  case Nil
  then show ?case by simp
next
  case (Cons l ls)
  show ?case
  proof (cases "invalidLine fmt sty (kinds_of stack) l")
    case True
    from lineStep_invalid [OF True] Cons.prems show ?thesis by auto
  next
    case False
    from lineStep_valid [OF False] obtain stack' where
      "lineStep fmt sty l stack = Inr stack'" by blast
    with Cons.prems Cons.IH [of stack'] show ?thesis by simp
  qed
qed




lemma astToObject_unfold:
  "astToObject (Ast key v ty ind ch) =
     (if ty = TString \<or> ty = TNumber \<or> ty = TNull then Inr v
      else if ty = TObject then
        (case foldE objectChild (children_of ch) [] of
           Inl e \<Rightarrow> Inl e
         | Inr obj \<Rightarrow> Inr (Obj obj))
      else if truthy v \<and> ch = None then Inr v
      else
        (case foldE arrayChild (children_of ch) \<lparr>r_array = [], r_explicit = [], r_dash = []\<rparr> of
           Inl e \<Rightarrow> Inl e
         | Inr st \<Rightarrow>
             (let array = reconcile st
              in if array = [] \<and> truthy v \<and> isArray v then Inr v else Inr (Arr array))))"
  unfolding objectChild_def [abs_def] arrayChild_def [abs_def] reconcile_def
  by (subst astToObject.simps) (rule refl)











lemma arr_set_length:
  "n < 4294967295 \<Longrightarrow> length (arr_set a (idx n) v) = max (length a) (Suc n)"
  by (auto simp: arr_set_def idx_def)

lemma arr_set_slot:
  "n < 4294967295 \<Longrightarrow> slot (arr_set a (idx n) v) i = (if i = n then v else slot a i)"
  by (auto simp: arr_set_def idx_def slot_def nth_append nth_list_update)

lemma rangeFold:
  assumes "s + n \<le> 4294967295"
  shows "r_dash (fold (rangeStep s v) [0 ..< n] st) = r_dash st
     \<and> r_explicit (fold (rangeStep s v) [0 ..< n] st) = r_explicit st @ map idx [s ..< s + n]
     \<and> length (r_array (fold (rangeStep s v) [0 ..< n] st))
          = (if n = 0 then length (r_array st) else max (length (r_array st)) (s + n))
     \<and> (\<forall>i. slot (r_array (fold (rangeStep s v) [0 ..< n] st)) i
          = (if s \<le> i \<and> i < s + n then v else slot (r_array st) i))"
  using assms
proof (induction n)
  case 0
  then show ?case by auto
next
  case (Suc n)
  let ?st = "fold (rangeStep s v) [0 ..< n] st"
  from Suc have ih: "r_dash ?st = r_dash st"
    "r_explicit ?st = r_explicit st @ map idx [s ..< s + n]"
    "length (r_array ?st) = (if n = 0 then length (r_array st) else max (length (r_array st)) (s + n))"
    "\<And>i. slot (r_array ?st) i = (if s \<le> i \<and> i < s + n then v else slot (r_array st) i)"
    by simp_all
  from Suc.prems have b: "s + n < 4294967295" by simp
  have step: "fold (rangeStep s v) [0 ..< Suc n] st = rangeStep s v n ?st" by simp
  show ?case
    unfolding step
    by (auto simp: rangeStep_def ih arr_set_length [OF b] arr_set_slot [OF b])
qed

lemma rangeLoop_claim:
  assumes "s \<le> e" "e < 4294967295" "length (r_explicit st) + (Suc e - s) \<le> 4294967295"
  shows "\<exists>st'. rangeLoop (idx s) (idx e) v st = Inr st'
     \<and> r_dash st' = r_dash st
     \<and> r_explicit st' = r_explicit st @ map idx [s ..< Suc e]
     \<and> length (r_array st') = max (length (r_array st)) (Suc e)
     \<and> (\<forall>i. slot (r_array st') i = (if s \<le> i \<and> i \<le> e then v else slot (r_array st) i))"
proof -
  have cnt: "dec_count (Decimal (int s) 0) (Decimal (int e) 0) = int (Suc e - s)"
    using assms(1) by (simp add: dec_count_def)
  have le: "dec_le (Decimal (int s) 0) (Decimal (int e) 0)"
    using assms(1) by (simp add: dec_le_def)
  have stepeq: "(\<lambda>j st. st\<lparr>r_array := arr_set (r_array st) (Fin (dec_plus (Decimal (int s) 0) (int j))) v,
                      r_explicit := r_explicit st @ [Fin (dec_plus (Decimal (int s) 0) (int j))]\<rparr>)
                = (\<lambda>j. rangeStep s v j)"
    by (intro ext) (simp add: rangeStep_def idx_def dec_plus_def)
  have run: "rangeLoop (idx s) (idx e) v st = Inr (fold (rangeStep s v) [0 ..< Suc e - s] st)"
    using assms(3) le
    by (simp add: rangeLoop_def idx_def cnt stepeq del: upt_Suc)
  have b: "s + (Suc e - s) \<le> 4294967295" using assms(1,2) by simp
  have e: "s + (Suc e - s) = Suc e" using assms(1) by simp
  from rangeFold [OF b, of v st] assms(1) show ?thesis
    unfolding run e by (intro exI [of _ "fold (rangeStep s v) [0 ..< Suc e - s] st"]) auto
qed


lemma pushIndex_claim:
  assumes "s < 4294967295" "length (r_explicit st) + 1 \<le> 4294967295"
  shows "\<exists>st'. pushIndex (idx s) v st = Inr st'
     \<and> r_dash st' = r_dash st
     \<and> r_explicit st' = r_explicit st @ map idx [s ..< Suc s]
     \<and> length (r_array st') = max (length (r_array st)) (Suc s)
     \<and> (\<forall>i. slot (r_array st') i = (if s \<le> i \<and> i \<le> s then v else slot (r_array st) i))"
  using assms
  by (auto simp: pushIndex_def arr_set_length arr_set_slot)

lemma idx_not_NaN: "idx s \<noteq> NaN"
  by (simp add: idx_def)

lemma arrayChild_placeholder:
  assumes "childDirective child (Placeholder v)"
  shows "arrayChild child st = Inr (st\<lparr>r_dash := r_dash st @ [v]\<rparr>)"
  using assms by (simp add: childDirective_def arrayChild_def)

lemma arrayChild_claim:
  assumes "childDirective child (Claim s e v)" "e < 4294967295"
    "length (r_explicit st) + (Suc e - s) \<le> 4294967295"
  shows "\<exists>st'. arrayChild child st = Inr st'
     \<and> r_dash st' = r_dash st
     \<and> r_explicit st' = r_explicit st @ map idx [s ..< Suc e]
     \<and> length (r_array st') = max (length (r_array st)) (Suc e)
     \<and> (\<forall>i. slot (r_array st') i = (if s \<le> i \<and> i \<le> e then v else slot (r_array st) i))"
proof -
  from assms(1) have v: "astToObject child = Inr v" and se: "s \<le> e"
    and nd: "a_key child \<noteq> ''-''"
    by (simp_all add: childDirective_def)
  from assms(1) consider
    (range) "CHR ''-'' \<in> set (a_key child)"
      "map js_Number (split_dash (a_key child)) = [idx s, idx e]"
    | (index) "CHR ''-'' \<notin> set (a_key child)" "s = e" "js_parseInt (a_key child) = idx s"
    by (auto simp: childDirective_def)
  then show ?thesis
  proof cases
    case range
    then have "arrayChild child st = rangeLoop (idx s) (idx e) v st"
      using v nd by (simp add: arrayChild_def Let_def)
    with rangeLoop_claim [OF se assms(2,3), of v] show ?thesis by simp
  next
    case index
    then have "arrayChild child st = pushIndex (idx s) v st"
      using v nd by (simp add: arrayChild_def Let_def idx_not_NaN)
    with pushIndex_claim [of s st v] assms(2,3) index(2) show ?thesis by simp
  qed
qed

lemma arrayChildren_directives:
  assumes "list_all2 childDirective cs ds"
    "claimBound 0 ds \<le> 4294967295"
    "length (r_explicit st) + claimCount ds \<le> 4294967295"
  shows "\<exists>st'. foldE arrayChild cs st = Inr st'
     \<and> r_dash st' = r_dash st @ placeholders ds
     \<and> set (r_explicit st') = set (r_explicit st) \<union> idx ` {i. isClaimed ds i}
     \<and> length (r_array st') = claimBound (length (r_array st)) ds
     \<and> (\<forall>i. slot (r_array st') i = claimedValue (slot (r_array st) i) ds i)"
  using assms
proof (induction cs ds arbitrary: st rule: list_all2_induct)
  case Nil
  then show ?case by simp
next
  case (Cons c cs d ds)
  show ?case
  proof (cases d)
    case (Placeholder v)
    let ?st = "st\<lparr>r_dash := r_dash st @ [v]\<rparr>"
    from Cons.hyps(1) Placeholder have s: "arrayChild c st = Inr ?st"
      by (simp add: arrayChild_placeholder)
    from Cons.prems Placeholder
    have "claimBound 0 ds \<le> 4294967295" "length (r_explicit ?st) + claimCount ds \<le> 4294967295"
      by simp_all
    from Cons.IH [OF this] s Placeholder show ?thesis by auto
  next
    case (Claim s e v)
    have mono: "Suc e \<le> claimBound (max 0 (Suc e)) ds"
    proof -
      have "b \<le> claimBound b ds" for b
        by (induction b ds rule: claimBound.induct) auto
      then show ?thesis by simp
    qed
    from Cons.prems Claim mono have e: "e < 4294967295" by simp
    from Cons.prems Claim
    have c: "length (r_explicit st) + (Suc e - s) \<le> 4294967295" by simp
    from Cons.hyps(1) Claim have cd: "childDirective c (Claim s e v)" by simp
    from arrayChild_claim [OF cd e c] obtain st1 where
      s1: "arrayChild c st = Inr st1"
      and d1: "r_dash st1 = r_dash st"
      and x1: "r_explicit st1 = r_explicit st @ map idx [s ..< Suc e]"
      and l1: "length (r_array st1) = max (length (r_array st)) (Suc e)"
      and a1: "\<And>i. slot (r_array st1) i = (if s \<le> i \<and> i \<le> e then v else slot (r_array st) i)"
      by blast
    have bmono: "claimBound a ds \<le> claimBound b ds" if "a \<le> b" for a b
      using that by (induction a ds arbitrary: b rule: claimBound.induct) auto
    from Cons.prems(1) Claim have b0: "claimBound 0 ds \<le> 4294967295"
      using bmono [of 0 "max 0 (Suc e)"] by simp
    have "length (r_explicit st1) = length (r_explicit st) + (Suc e - s)"
      unfolding x1 by (simp del: upt_Suc)
    with Cons.prems(2) Claim
    have c1: "length (r_explicit st1) + claimCount ds \<le> 4294967295" by simp
    from Cons.IH [OF b0 c1] obtain st' where
      f: "foldE arrayChild cs st1 = Inr st'"
      and d: "r_dash st' = r_dash st1 @ placeholders ds"
      and x: "set (r_explicit st') = set (r_explicit st1) \<union> idx ` {i. isClaimed ds i}"
      and l: "length (r_array st') = claimBound (length (r_array st1)) ds"
      and a: "\<And>i. slot (r_array st') i = claimedValue (slot (r_array st1) i) ds i"
      by blast
    have "set (r_explicit st') = set (r_explicit st) \<union> idx ` {i. isClaimed (d # ds) i}"
      unfolding x x1 Claim by auto
    with s1 f d d1 l l1 a a1 Claim show ?thesis by simp
  qed
qed


lemma nextFree_ge: "cur \<le> nextFree ds cur"
proof (induction ds cur rule: nextFree.induct)
  case (1 ds cur)
  then show ?case by (subst nextFree.simps) (auto dest: Suc_leD)
qed

lemma nextFree_free: "\<not> isClaimed ds (nextFree ds cur)"
proof (induction ds cur rule: nextFree.induct)
  case (1 ds cur)
  then show ?case by (subst nextFree.simps) auto
qed

lemma nextFree_skipped: "cur \<le> n \<Longrightarrow> n < nextFree ds cur \<Longrightarrow> isClaimed ds n"
proof (induction ds cur rule: nextFree.induct)
  case (1 ds cur)
  show ?case
  proof (cases "isClaimed ds cur")
    case True
    with "1.prems" have lt: "n < nextFree ds (Suc cur)" by (subst (asm) nextFree.simps) simp
    show ?thesis
    proof (cases "n = cur")
      case False
      with "1.prems"(1) have "Suc cur \<le> n" by simp
      from "1.IH" [OF True this lt] show ?thesis .
    qed (use True in simp)
  next
    case False
    with "1.prems" show ?thesis by (subst (asm) nextFree.simps) simp
  qed
qed

lemma nextFree_least: "nextFree ds cur = (LEAST n. cur \<le> n \<and> \<not> isClaimed ds n)"
proof (rule Least_equality [symmetric])
  show "cur \<le> nextFree ds cur \<and> \<not> isClaimed ds (nextFree ds cur)"
    by (simp add: nextFree_ge nextFree_free)
next
  fix n assume "cur \<le> n \<and> \<not> isClaimed ds n"
  then show "nextFree ds cur \<le> n"
    using nextFree_skipped [of cur n ds] by (auto simp: not_less [symmetric])
qed

lemma nextFree_bound: "nextFree ds cur \<le> max cur (claimBound 0 ds)"
proof (rule ccontr)
  assume "\<not> nextFree ds cur \<le> max cur (claimBound 0 ds)"
  then have "cur \<le> max cur (claimBound 0 ds)" "max cur (claimBound 0 ds) < nextFree ds cur"
    by (simp_all add: not_le)
  from nextFree_skipped [OF this] isClaimed_bound [of ds "max cur (claimBound 0 ds)" 0]
  show False by simp
qed

lemma skipClaimed_nextFree:
  assumes "\<And>n. (idx n \<in> set ex) = isClaimed ds n"
  shows "skipClaimed ex (int cur) = int (nextFree ds cur)"
proof (induction "claimBound 0 ds - cur" arbitrary: cur rule: less_induct)
  case less
  show ?case
  proof (cases "isClaimed ds cur")
    case True
    then have "cur < claimBound 0 ds" by (rule isClaimed_bound)
    then have "claimBound 0 ds - Suc cur < claimBound 0 ds - cur" by simp
    from less [OF this]
    have ih: "skipClaimed ex (int (Suc cur)) = int (nextFree ds (Suc cur))" .
    have "idx cur \<in> set ex" using assms True by simp
    then have "skipClaimed ex (int cur) = skipClaimed ex (int cur + 1)"
      by (subst skipClaimed.simps) (simp add: idx_def)
    moreover have "nextFree ds cur = nextFree ds (Suc cur)"
      using True by (subst nextFree.simps) simp
    ultimately show ?thesis using ih by (simp add: add.commute)
  next
    case False
    then have "idx cur \<notin> set ex" using assms by simp
    then have "skipClaimed ex (int cur) = int cur"
      by (subst skipClaimed.simps) (simp add: idx_def)
    moreover have "nextFree ds cur = cur"
      using False by (subst nextFree.simps) simp
    ultimately show ?thesis by simp
  qed
qed

lemma assign_keys: "(k, p) \<in> set (assign ds cur ps) \<Longrightarrow> cur \<le> k \<and> \<not> isClaimed ds k"
proof (induction ps arbitrary: cur)
  case Nil
  then show ?case by simp
next
  case (Cons q ps)
  from Cons.prems have "(k, p) = (nextFree ds cur, q) \<or> (k, p) \<in> set (assign ds (Suc (nextFree ds cur)) ps)"
    by simp
  then show ?case
  proof
    assume "(k, p) = (nextFree ds cur, q)"
    then show ?thesis by (simp add: nextFree_ge nextFree_free)
  next
    assume "(k, p) \<in> set (assign ds (Suc (nextFree ds cur)) ps)"
    from Cons.IH [OF this] nextFree_ge [of cur ds] show ?thesis by simp
  qed
qed

lemma assign_last:
  "assign ds cur ps = a # as \<Longrightarrow> cur \<le> fst (last (a # as))"
  using assign_keys [of "fst (last (a # as))" "snd (last (a # as))" ds cur ps]
    last_in_set [of "a # as"] by simp

lemma assignEnd_Cons:
  "assignEnd (assign ds cur (p # ps))
     = max (Suc (nextFree ds cur)) (assignEnd (assign ds (Suc (nextFree ds cur)) ps))"
proof (cases "assign ds (Suc (nextFree ds cur)) ps")
  case Nil
  then show ?thesis by (simp add: assignEnd_def)
next
  case (Cons a as)
  from assign_last [OF Cons] Cons show ?thesis by (simp add: assignEnd_def)
qed

lemma placeDashes_assign:
  assumes "\<And>n. (idx n \<in> set ex) = isClaimed ds n"
    "max cur (claimBound 0 ds) + length ps \<le> 4294967295"
  shows "length (placeDashes ex ps (int cur) arr) = max (length arr) (assignEnd (assign ds cur ps))
     \<and> (\<forall>i. slot (placeDashes ex ps (int cur) arr) i
          = (case map_of (assign ds cur ps) i of Some p \<Rightarrow> p | None \<Rightarrow> slot arr i))"
  using assms(2)
proof (induction ps arbitrary: cur arr)
  case Nil
  then show ?case by (simp add: assignEnd_def)
next
  case (Cons p ps)
  let ?c = "nextFree ds cur"
  have sk: "skipClaimed ex (int cur) = int ?c" by (rule skipClaimed_nextFree [OF assms(1)])
  from nextFree_bound [of ds cur] Cons.prems have lim: "?c < 4294967295" by simp
  from nextFree_bound [of ds cur] Cons.prems
  have b: "max (Suc ?c) (claimBound 0 ds) + length ps \<le> 4294967295" by simp
  have unf: "placeDashes ex (p # ps) (int cur) arr
          = placeDashes ex ps (int (Suc ?c)) (arr_set arr (idx ?c) p)"
    by (simp add: sk Let_def idx_def add.commute)
  from Cons.IH [OF b, of "arr_set arr (idx ?c) p"]
  have l: "length (placeDashes ex ps (int (Suc ?c)) (arr_set arr (idx ?c) p))
             = max (length (arr_set arr (idx ?c) p)) (assignEnd (assign ds (Suc ?c) ps))"
    and s: "\<And>i. slot (placeDashes ex ps (int (Suc ?c)) (arr_set arr (idx ?c) p)) i
             = (case map_of (assign ds (Suc ?c) ps) i of
                  Some q \<Rightarrow> q | None \<Rightarrow> slot (arr_set arr (idx ?c) p) i)"
    by simp_all
  have none: "map_of (assign ds (Suc ?c) ps) ?c = None"
  proof (cases "map_of (assign ds (Suc ?c) ps) ?c")
    case (Some q)
    then have "(?c, q) \<in> set (assign ds (Suc ?c) ps)" by (rule map_of_SomeD)
    from assign_keys [OF this] show ?thesis by simp
  qed simp
  show ?case
  proof (intro conjI allI)
    show "length (placeDashes ex (p # ps) (int cur) arr)
            = max (length arr) (assignEnd (assign ds cur (p # ps)))"
      unfolding unf l assignEnd_Cons by (simp add: arr_set_length [OF lim])
  next
    fix i
    show "slot (placeDashes ex (p # ps) (int cur) arr) i
            = (case map_of (assign ds cur (p # ps)) i of Some q \<Rightarrow> q | None \<Rightarrow> slot arr i)"
      unfolding unf s using none
      by (cases "i = ?c") (simp_all add: arr_set_slot [OF lim] split: option.splits)
  qed
qed

lemma fillHoles_nth:
  "length (fillHoles a) = length a
   \<and> (\<forall>i<length a. fillHoles a ! i = (if slot a i = Undefined then Num (Decimal 0 0) else slot a i))"
  by (simp add: fillHoles_def slot_def)


lemma reconciledLength_assignEnd:
  "reconciledLength ds = max (claimBound 0 ds) (assignEnd (assign ds 0 (placeholders ds)))"
  by (simp add: reconciledLength_def assignEnd_def split: list.splits)

lemma childDirective_value: "childDirective c d \<Longrightarrow> directiveValue d \<noteq> Undefined"
  by (cases d) (simp_all add: childDirective_def directiveValue_def)

lemma directives_defined:
  "list_all2 childDirective cs ds \<Longrightarrow> \<forall>d\<in>set ds. directiveValue d \<noteq> Undefined"
  by (induction cs ds rule: list_all2_induct) (auto dest: childDirective_value)

lemma unclaimed_value: "\<not> isClaimed ds i \<Longrightarrow> claimedValue x ds i = x"
  by (induction x ds i rule: claimedValue.induct) auto

lemma claimed_defined:
  "\<forall>d\<in>set ds. directiveValue d \<noteq> Undefined \<Longrightarrow> isClaimed ds i \<or> x \<noteq> Undefined
     \<Longrightarrow> claimedValue x ds i \<noteq> Undefined"
  by (induction x ds i rule: claimedValue.induct) (auto simp: directiveValue_def)

lemma placeholders_defined:
  "\<forall>d\<in>set ds. directiveValue d \<noteq> Undefined \<Longrightarrow> p \<in> set (placeholders ds) \<Longrightarrow> p \<noteq> Undefined"
  by (induction ds rule: placeholders.induct) (auto simp: directiveValue_def)

lemma assign_values: "(k, p) \<in> set (assign ds cur ps) \<Longrightarrow> p \<in> set ps"
  by (induction ps arbitrary: cur) auto

lemma claimBound_mono: "a \<le> claimBound a ds"
  by (induction a ds rule: claimBound.induct) auto

lemma claimBound_pos: "ds \<noteq> [] \<Longrightarrow> placeholders ds = [] \<Longrightarrow> 0 < claimBound b ds"
proof (induction ds arbitrary: b)
  case Nil
  then show ?case by simp
next
  case (Cons d ds)
  show ?case
  proof (cases d)
    case (Placeholder v)
    with Cons.prems show ?thesis by simp
  next
    case (Claim s e v)
    have "0 < max b (Suc e)" by simp
    also have "\<dots> \<le> claimBound (max b (Suc e)) ds" by (rule claimBound_mono)
    finally show ?thesis using Claim by simp
  qed
qed

lemma reconciledLength_pos: "ds \<noteq> [] \<Longrightarrow> 0 < reconciledLength ds"
proof (cases "placeholders ds")
  case Nil
  assume "ds \<noteq> []"
  from claimBound_pos [OF this Nil, of 0] show ?thesis by (simp add: reconciledLength_def)
next
  case (Cons p ps)
  then show ?thesis by (simp add: reconciledLength_def)
qed

lemma idx_inj: "(idx n = idx m) = (n = m)"
  by (simp add: idx_def)

lemma reconcile_directives:
  assumes cd: "list_all2 childDirective cs ds"
    and ne: "ds \<noteq> []"
    and cnt: "claimCount ds \<le> 4294967295"
    and lim: "claimBound 0 ds + length (placeholders ds) \<le> 4294967295"
  shows "astToObject (Ast key v TArray ind (Some cs)) = Inr (Arr (reconciled ds))"
proof -
  let ?init = "\<lparr>r_array = [], r_explicit = [], r_dash = []\<rparr>"
  from lim have b: "claimBound 0 ds \<le> 4294967295" by simp
  from cnt have c: "length (r_explicit ?init) + claimCount ds \<le> 4294967295" by simp
  from arrayChildren_directives [OF cd b c] obtain st where
    f: "foldE arrayChild cs ?init = Inr st"
    and d: "r_dash st = placeholders ds"
    and x: "set (r_explicit st) = idx ` {i. isClaimed ds i}"
    and l: "length (r_array st) = claimBound 0 ds"
    and a: "\<And>i. slot (r_array st) i = claimedValue Undefined ds i"
    by (auto simp: slot_def)
  have ex: "(idx n \<in> set (r_explicit st)) = isClaimed ds n" for n
    unfolding x by (auto simp: idx_inj)
  let ?A = "assign ds 0 (placeholders ds)"
  let ?arr = "placeDashes (r_explicit st) (placeholders ds) 0 (r_array st)"
  from lim have lim0: "max 0 (claimBound 0 ds) + length (placeholders ds) \<le> 4294967295" by simp
  from placeDashes_assign [of "r_explicit st" ds 0 "placeholders ds" "r_array st", OF ex lim0]
  have pl: "length ?arr = reconciledLength ds"
    and ps: "\<And>i. slot ?arr i = (case map_of ?A i of Some p \<Rightarrow> p | None \<Rightarrow> claimedValue Undefined ds i)"
    by (simp_all add: reconciledLength_assignEnd l a cong: option.case_cong)
  have def: "\<forall>d\<in>set ds. directiveValue d \<noteq> Undefined" using cd by (rule directives_defined)
  have rec: "reconcile st = reconciled ds"
  proof (rule nth_equalityI)
    show "length (reconcile st) = length (reconciled ds)"
      using fillHoles_nth [of ?arr] by (simp add: reconcile_def d pl reconciled_def)
  next
    fix i assume "i < length (reconcile st)"
    then have i: "i < reconciledLength ds"
      using fillHoles_nth [of ?arr] by (simp add: reconcile_def d pl)
    then have n: "reconcile st ! i = (if slot ?arr i = Undefined then Num (Decimal 0 0) else slot ?arr i)"
      using fillHoles_nth [of ?arr] by (simp add: reconcile_def d pl)
    show "reconcile st ! i = reconciled ds ! i"
    proof (cases "isClaimed ds i")
      case True
      have "map_of ?A i = None"
      proof (cases "map_of ?A i")
        case (Some p)
        then have "(i, p) \<in> set ?A" by (rule map_of_SomeD)
        from assign_keys [OF this] True show ?thesis by simp
      qed simp
      moreover from claimed_defined [OF def, of i Undefined] True
      have "claimedValue Undefined ds i \<noteq> Undefined" by simp
      ultimately show ?thesis using True i by (simp add: n ps reconciled_def)
    next
      case False
      then have u: "claimedValue Undefined ds i = Undefined" by (rule unclaimed_value)
      show ?thesis
      proof (cases "map_of ?A i")
        case None
        with False u i show ?thesis by (simp add: n ps reconciled_def)
      next
        case (Some p)
        then have "(i, p) \<in> set ?A" by (rule map_of_SomeD)
        then have "p \<in> set (placeholders ds)" by (rule assign_values)
        from placeholders_defined [OF def this] have "p \<noteq> Undefined" .
        with False Some i show ?thesis by (simp add: n ps reconciled_def)
      qed
    qed
  qed
  from reconciledLength_pos [OF ne] have "reconciled ds \<noteq> []"
    by (simp add: reconciled_def)
  with f rec show ?thesis
    by (simp add: astToObject_unfold children_of_def Let_def)
qed


lemma gap_fill_indexed:
  "fst (parse (''test: []'' @ [NL] @ ''    1-3: 0'' @ [NL] @ ''    5-6: 1'' @ [NL] @ ''    -: 0'')
         Indexed new_converter) =
     Inr (Obj [(''test'', Arr [Num (Decimal 0 0), Num (Decimal 0 0), Num (Decimal 0 0),
                              Num (Decimal 0 0), Num (Decimal 0 0), Num (Decimal 1 0),
                              Num (Decimal 1 0)])])"
  by code_simp

lemma gap_fill_values:
  "fst (parse (''test: []'' @ [NL] @ ''    1-3: 0'' @ [NL] @ ''    5-6: 1'' @ [NL] @ ''    -: 0'')
         Values new_converter) =
     Inr (Obj [(''test'', Arr [Num (Decimal 0 0), Num (Decimal 0 0), Num (Decimal 0 0),
                              Num (Decimal 0 0), Num (Decimal 0 0), Num (Decimal 1 0),
                              Num (Decimal 1 0)])])"
  by code_simp

lemma gap_fill_reconciled:
  "reconciled [Claim 1 3 (Num (Decimal 0 0)), Claim 5 6 (Num (Decimal 1 0)),
               Placeholder (Num (Decimal 0 0))] =
     [Num (Decimal 0 0), Num (Decimal 0 0), Num (Decimal 0 0), Num (Decimal 0 0),
      Num (Decimal 0 0), Num (Decimal 1 0), Num (Decimal 1 0)]"
  by code_simp

text \<open>
  Claim C3.  A sequence block whose children are placeholders, ranges and plain
  indices materializes to the reconciled sequence of the specification: every index
  of an inclusive range holds the value of the range child (of the last one that
  covers it); the placeholders go, in encounter order, to the lowest index from a
  cursor starting at 0 that is not claimed, the cursor moving past each one; every
  other position up to the highest claimed or assigned index holds the number 0.  The
  block with the lines \<open>1-3: 0\<close>, \<open>5-6: 1\<close>, \<open>-: 0\<close> gives \<open>[0,0,0,0,0,1,1]\<close>.
\<close>

theorem sequence_reconciliation:
  "(list_all2 childDirective children ds \<and> ds \<noteq> [] \<and> claimCount ds \<le> 4294967295
      \<and> claimBound 0 ds + length (placeholders ds) \<le> 4294967295 \<longrightarrow>
      astToObject (Ast key v TArray ind (Some children)) = Inr (Arr (reconciled ds)))
   \<and> nextFree ds cur = (LEAST n. cur \<le> n \<and> \<not> isClaimed ds n)
   \<and> reconciled [Claim 1 3 (Num (Decimal 0 0)), Claim 5 6 (Num (Decimal 1 0)),
                 Placeholder (Num (Decimal 0 0))] =
       [Num (Decimal 0 0), Num (Decimal 0 0), Num (Decimal 0 0), Num (Decimal 0 0),
        Num (Decimal 0 0), Num (Decimal 1 0), Num (Decimal 1 0)]
   \<and> fst (parse (''test: []'' @ [NL] @ ''    1-3: 0'' @ [NL] @ ''    5-6: 1'' @ [NL] @ ''    -: 0'')
           fmt conv) =
       Inr (Obj [(''test'', Arr [Num (Decimal 0 0), Num (Decimal 0 0), Num (Decimal 0 0),
                                Num (Decimal 0 0), Num (Decimal 0 0), Num (Decimal 1 0),
                                Num (Decimal 1 0)])])"
proof (intro conjI impI)
  assume "list_all2 childDirective children ds \<and> ds \<noteq> [] \<and> claimCount ds \<le> 4294967295
      \<and> claimBound 0 ds + length (placeholders ds) \<le> 4294967295"
  then show "astToObject (Ast key v TArray ind (Some children)) = Inr (Arr (reconciled ds))"
    by (intro reconcile_directives) simp_all
next
  show "nextFree ds cur = (LEAST n. cur \<le> n \<and> \<not> isClaimed ds n)" by (rule nextFree_least)
next
  show "reconciled [Claim 1 3 (Num (Decimal 0 0)), Claim 5 6 (Num (Decimal 1 0)),
                 Placeholder (Num (Decimal 0 0))] =
       [Num (Decimal 0 0), Num (Decimal 0 0), Num (Decimal 0 0), Num (Decimal 0 0),
        Num (Decimal 0 0), Num (Decimal 1 0), Num (Decimal 1 0)]"
    by (rule gap_fill_reconciled)
next
  let ?doc = "''test: []'' @ [NL] @ ''    1-3: 0'' @ [NL] @ ''    5-6: 1'' @ [NL] @ ''    -: 0''"
  let ?res = "Inr (Obj [(''test'', Arr [Num (Decimal 0 0), Num (Decimal 0 0), Num (Decimal 0 0),
                                Num (Decimal 0 0), Num (Decimal 0 0), Num (Decimal 1 0),
                                Num (Decimal 1 0)])])"
  have "fst (parse ?doc fmt new_converter) = ?res"
    by (cases fmt) (simp_all only: gap_fill_indexed gap_fill_values)
  then show "fst (parse ?doc fmt conv) = ?res"
    using parse_fields [of ?doc fmt conv new_converter] by simp
qed

lemma witness_children:
  "list_all2 childDirective
     [Ast ''2-3'' (Str ''x'') TString 1 None, Ast ''-'' Null TNull 1 None,
      Ast ''0'' (Str ''y'') TString 1 None, Ast ''-'' (Str ''z'') TString 1 None]
     [Claim 2 3 (Str ''x''), Placeholder Null, Claim 0 0 (Str ''y''), Placeholder (Str ''z'')]"
  by code_simp

lemma witness_reconciled:
  "reconciled [Claim 2 3 (Str ''x''), Placeholder Null, Claim 0 0 (Str ''y''),
               Placeholder (Str ''z'')] =
     [Str ''y'', Null, Str ''x'', Str ''x'', Str ''z'']"
  by code_simp

theorem sequence_reconciliation_witness:
  "astToObject (Ast ''k'' (Arr []) TArray 0 (Some
       [Ast ''2-3'' (Str ''x'') TString 1 None, Ast ''-'' Null TNull 1 None,
        Ast ''0'' (Str ''y'') TString 1 None, Ast ''-'' (Str ''z'') TString 1 None]))
     = Inr (Arr [Str ''y'', Null, Str ''x'', Str ''x'', Str ''z''])"
proof -
  let ?ds = "[Claim 2 3 (Str ''x''), Placeholder Null, Claim 0 0 (Str ''y''),
              Placeholder (Str ''z'')]"
  have h: "?ds \<noteq> [] \<and> claimCount ?ds \<le> 4294967295
      \<and> claimBound 0 ?ds + length (placeholders ?ds) \<le> 4294967295"
    by simp
  from sequence_reconciliation [THEN conjunct1, rule_format, OF conjI [OF witness_children h]]
  show ?thesis by (simp only: witness_reconciled)
qed

text \<open>
  Claim C1 fails on the code.  The document \<open>a: 1\<close> parses to the mapping with the one
  entry \<open>a\<close>; \<open>stringify\<close> writes that mapping inline, as \<open>{a: 1}\<close>, under both array
  formats; and \<open>parse\<close> reads that text as one key/value line with the key \<open>{a\<close>
  and the string \<open>1}\<close>.  A nested mapping fails as well: the mapping \<open>d\<close> with the
  one entry \<open>x\<close> is written inline, as \<open>d: {x: 1}\<close>, and read back as the empty
  mapping, because \<open>_astToObject\<close> drops the inline value of a mapping node (it keeps
  the one of a sequence node).
\<close>

theorem round_trip_failure:
  "fst (parse ''a: 1'' Indexed new_converter) = Inr (Obj [(''a'', Num (Decimal 1 0))])
   \<and> fst (stringify (Obj [(''a'', Num (Decimal 1 0))]) defaultOptions new_converter) = ''{a: 1}''
   \<and> fst (stringify (Obj [(''a'', Num (Decimal 1 0))])
           (defaultOptions\<lparr>arrayFormat := Values\<rparr>) new_converter) = ''{a: 1}''
   \<and> fst (parse ''{a: 1}'' Indexed new_converter) = Inr (Obj [(''{a'', Str ''1}'')])
   \<and> fst (parse ''{a: 1}'' Values new_converter) = Inr (Obj [(''{a'', Str ''1}'')])
   \<and> fst (parse (''a: 1'' @ [NL] @ ''b: 2'' @ [NL] @ ''c: 3'' @ [NL] @ ''d: {}'' @ [NL] @ ''  x: 1'')
           Indexed new_converter)
       = Inr (Obj [(''a'', Num (Decimal 1 0)), (''b'', Num (Decimal 2 0)),
                   (''c'', Num (Decimal 3 0)), (''d'', Obj [(''x'', Num (Decimal 1 0))])])
   \<and> fst (stringify (Obj [(''a'', Num (Decimal 1 0)), (''b'', Num (Decimal 2 0)),
                          (''c'', Num (Decimal 3 0)), (''d'', Obj [(''x'', Num (Decimal 1 0))])])
           defaultOptions new_converter)
       = ''a: 1'' @ [NL] @ ''b: 2'' @ [NL] @ ''c: 3'' @ [NL] @ ''d: {x: 1}''
   \<and> fst (parse (''a: 1'' @ [NL] @ ''b: 2'' @ [NL] @ ''c: 3'' @ [NL] @ ''d: {x: 1}'')
           Indexed new_converter)
       = Inr (Obj [(''a'', Num (Decimal 1 0)), (''b'', Num (Decimal 2 0)),
                   (''c'', Num (Decimal 3 0)), (''d'', Obj [])])"
  by code_simp

end
